theory Spec2Isabelle
  imports Main "HOL-Library.Word"
begin

unbundle bit_operations_syntax

section \<open>Buffers and errors\<close>

text \<open>
  A Node.js \<open>Buffer\<close> is a sequence of bytes. Hashes are buffers; the stores key their
  objects by the base64 string of a hash, which is one-to-one with the bytes, so the maps
  below are keyed by the buffer itself.
\<close>

type_synonym byte = "8 word"
type_synonym buffer = "byte list"

text \<open>
  What the JavaScript can throw or pass as \<open>err\<close>: a \<open>TypeError\<close> of the runtime (a
  property read on \<open>undefined\<close>, a call of something that is not a function), a thrown
  string or \<open>Error\<close> with its message, the \<open>MissingSourceError\<close> of transaction
  verification with the hash it misses, and any other verification failure.
\<close>

datatype js_error =
    TypeError
  | Thrown string
  | MissingSourceError buffer
  | VerifyError string

text \<open>
  \<open>Buffer.compare\<close> of buffertools: bytewise, unsigned, the shorter buffer first when
  one is a prefix of the other. The result is negative, zero or positive.
\<close>

fun buffer_compare :: "buffer \<Rightarrow> buffer \<Rightarrow> int" where
  "buffer_compare [] [] = 0"
| "buffer_compare [] (y # ys) = - 1"
| "buffer_compare (x # xs) [] = 1"
| "buffer_compare (x # xs) (y # ys) =
     (if x < y then - 1 else if y < x then 1 else buffer_compare xs ys)"

text \<open>The value of a buffer read as an unsigned integer, little-endian and big-endian.\<close>

fun uint_le :: "buffer \<Rightarrow> nat" where
  "uint_le [] = 0"
| "uint_le (x # xs) = unat x + 256 * uint_le xs"

fun be_acc :: "nat \<Rightarrow> buffer \<Rightarrow> nat" where
  "be_acc a [] = a"
| "be_acc a (x # xs) = be_acc (256 * a + unat x) xs"

definition uint_be :: "buffer \<Rightarrow> nat" where
  "uint_be xs = be_acc 0 xs"

section \<open>Transactions, as the block and the store use them\<close>

text \<open>
  The Transaction schema is not part of these sources. A transaction is modelled by what
  the block and the transaction store read from it: \<open>getHash()\<close> (also read as the field
  \<open>hash\<close>), \<open>isCoinBase()\<close>, \<open>isStandard()\<close>, the outpoints of \<open>ins\<close>, the keys of
  \<open>getAffectedAccounts()\<close> in enumeration order, and the field \<open>first_seen\<close> that
  \<open>add\<close> writes.
\<close>

record outpoint =
  op_hash :: buffer
  op_index :: nat

record transaction =
  getHash :: buffer
  isCoinBase :: bool
  isStandard :: bool
  ins :: "outpoint list"
  getAffectedAccounts :: "string list"
  first_seen :: "nat option"

section \<open>Block (lib/schema/block.js)\<close>

record block =
  hash :: "buffer option"
  prev_hash :: "buffer option"
  merkle_root :: "buffer option"
  timestamp :: nat
  bits :: nat
  nonce :: nat
  version :: string
  height :: int
  size_bytes :: nat
  active :: bool
  chainWork :: "buffer option"

text \<open>
  \<open>checkProofOfWork\<close>. \<open>Util.decodeDiffBits\<close> is not part of these sources and is a
  parameter: it gives the target as a buffer. \<open>this.hash.reverse()\<close> reverses the buffer
  in place, so the block comes back with the call's result: reversed when the check
  throws, reversed twice when it returns. A block without a hash raises a TypeError at
  \<open>this.hash.reverse()\<close>.
\<close>

definition checkProofOfWork ::
  "(nat \<Rightarrow> buffer) \<Rightarrow> block \<Rightarrow> (js_error + bool) \<times> block" where
  "checkProofOfWork decodeDiffBits b =
     (let target = decodeDiffBits (bits b) in
      case hash b of
        None \<Rightarrow> (Inl TypeError, b)
      | Some h \<Rightarrow>
          (let b1 = b\<lparr>hash := Some (rev h)\<rparr> in
           if buffer_compare (rev h) target > 0
           then (Inl (Thrown ''Difficulty target not met''), b1)
           else (Inr True, b1\<lparr>hash := Some (rev (rev h))\<rparr>)))"

text \<open>
  Modelled from the spec: \<open>Util.NULL_HASH\<close>, which is not part of these sources, is the
  all-zeros hash of 32 bytes.
\<close>

definition NULL_HASH :: buffer where
  "NULL_HASH = replicate 32 0"

text \<open>
  \<open>calcMerkleRoot(txs)\<close>. The argument is optional in JavaScript: \<open>None\<close> is a call
  without it, and then \<open>txs.length\<close> (line 125) raises a TypeError. With no transaction
  the result is a copy of \<open>NULL_HASH\<close>. Otherwise the tree starts as the transactions'
  hashes and the loop of line 136 runs while \<open>size > 1\<close>, from \<open>size = txs.length\<close>:
  its first pass (\<open>i = 0 < size\<close>) calls \<open>tree.add(...)\<close> at line 142; a JavaScript
  array has no method \<open>add\<close>, so that call raises a TypeError and the loop ends there.
  With one transaction the loop is not entered and the last element of the tree, the
  transaction's hash, is returned.
\<close>

definition calcMerkleRoot :: "transaction list option \<Rightarrow> js_error + buffer" where
  "calcMerkleRoot txs_arg =
     (case txs_arg of
        None \<Rightarrow> Inl TypeError
      | Some txs \<Rightarrow>
          if length txs = 0 then Inr NULL_HASH
          else
            (let tree = map getHash txs in
             if 1 < length txs then Inl TypeError
             else Inr (tree ! (length tree - 1))))"

text \<open>
  \<open>checkMerkleRoot(txs)\<close> calls \<open>this.calcMerkleRoot()\<close> with no argument, and throws
  when the comparison of the two roots gives 0.
\<close>

definition checkMerkleRoot :: "block \<Rightarrow> transaction list \<Rightarrow> js_error + bool" where
  "checkMerkleRoot b txs =
     (case merkle_root b of
        None \<Rightarrow> Inl (Thrown ''No merkle root'')
      | Some stored \<Rightarrow>
          (case calcMerkleRoot None of
             Inl e \<Rightarrow> Inl e
           | Inr calc \<Rightarrow>
               if buffer_compare calc stored = 0 then Inl (Thrown ''Merkle root incorrect'')
               else Inr True))"

text \<open>
  \<open>checkTimestamp\<close>: \<open>BlockRules.maxTimeOffset\<close> is two hours in seconds, and
  \<open>currentTime\<close> is the clock's milliseconds divided by 1000, so the comparison is made
  here in milliseconds (\<open>now_ms\<close> is \<open>new Date().getTime()\<close>).
\<close>

definition maxTimeOffset :: nat where
  "maxTimeOffset = 2 * 60 * 60"

definition checkTimestamp :: "nat \<Rightarrow> block \<Rightarrow> js_error + bool" where
  "checkTimestamp now_ms b =
     (if now_ms + maxTimeOffset * 1000 < timestamp b * 1000
      then Inl (Thrown ''Timestamp too far into the future'')
      else Inr True)"

text \<open>A number in a string concatenation: its decimal digits.\<close>

function decimal :: "nat \<Rightarrow> string" where
  "decimal n =
     (if n < 10 then [''0123456789'' ! n]
      else decimal (n div 10) @ [''0123456789'' ! (n mod 10)])"
  by pat_completeness auto
termination
  by (relation "measure (\<lambda>n. n)") simp_all

text \<open>
  \<open>checkTransactions(txs)\<close>: the list is not empty, its first transaction is a
  coinbase, and no later one is (the loop of line 97, from index 1).
\<close>

fun checkLaterTransactions :: "nat \<Rightarrow> transaction list \<Rightarrow> js_error + bool" where
  "checkLaterTransactions i [] = Inr True"
| "checkLaterTransactions i (tx # txs) =
     (if isCoinBase tx
      then Inl (Thrown (''Tx index '' @ decimal i @ '' must not be coinbase''))
      else checkLaterTransactions (i + 1) txs)"

definition checkTransactions :: "transaction list \<Rightarrow> js_error + bool" where
  "checkTransactions txs =
     (case txs of
        [] \<Rightarrow> Inl (Thrown ''No transactions'')
      | tx # rest \<Rightarrow>
          if \<not> isCoinBase tx then Inl (Thrown ''First tx must be coinbase'')
          else checkLaterTransactions 1 rest)"

text \<open>
  \<open>checkBlock(txs)\<close>: the checks in order, each throw ending the call; the
  transactions are checked only when the argument is given. The block comes back as
  \<open>checkProofOfWork\<close> left it.
\<close>

definition checkBlock ::
  "(nat \<Rightarrow> buffer) \<Rightarrow> nat \<Rightarrow> block \<Rightarrow> transaction list option \<Rightarrow> (js_error + bool) \<times> block" where
  "checkBlock decodeDiffBits now_ms b txs_arg =
     (case checkProofOfWork decodeDiffBits b of
        (Inl e, b1) \<Rightarrow> (Inl e, b1)
      | (Inr pow, b1) \<Rightarrow>
          (case checkTimestamp now_ms b1 of
             Inl e \<Rightarrow> (Inl e, b1)
           | Inr ts \<Rightarrow>
               (case txs_arg of
                  None \<Rightarrow> (Inr True, b1)
                | Some txs \<Rightarrow>
                    (case checkTransactions txs of
                       Inl e \<Rightarrow> (Inl e, b1)
                     | Inr shape \<Rightarrow>
                         (case checkMerkleRoot b1 txs of
                            Inl e \<Rightarrow> (Inl e, b1)
                          | Inr ok \<Rightarrow>
                              if \<not> ok then (Inl (Thrown ''Merkle hash invalid''), b1)
                              else (Inr True, b1))))))"

text \<open>
  The canonical merkle root in the words of the specification, for comparison: hashes are
  combined pairwise with the double SHA-256 \<open>H\<close>, the last one paired with itself when
  a level has an odd count, until one hash is left.
\<close>

fun pair_level :: "(buffer \<Rightarrow> buffer) \<Rightarrow> buffer list \<Rightarrow> buffer list" where
  "pair_level H [] = []"
| "pair_level H [a] = [H (a @ a)]"
| "pair_level H (a # b # rest) = H (a @ b) # pair_level H rest"

lemma pair_level_length: "length (pair_level H xs) = (length xs + 1) div 2"
  by (induction H xs rule: pair_level.induct) simp_all

function canonical_merkle_root :: "(buffer \<Rightarrow> buffer) \<Rightarrow> buffer list \<Rightarrow> buffer" where
  "canonical_merkle_root H [] = NULL_HASH"
| "canonical_merkle_root H [a] = a"
| "canonical_merkle_root H (a # b # rest) = canonical_merkle_root H (pair_level H (a # b # rest))"
  by pat_completeness auto
termination
  by (relation "measure (\<lambda>(H, xs). length xs)") (simp_all add: pair_level_length)

section \<open>Node state machine (lib/node.js)\<close>

datatype component_call =
    BlockChainInit
  | PeerManagerEnable
  | TxSenderEnable
  | BcManagerEnable
  | RpcServerEnable

record node =
  state :: "string option"
  running :: bool
  component_calls :: "component_call list"

record stateChange =
  oldState :: "string option"
  newState :: string

text \<open>\<open>Array.prototype.indexOf\<close>: the first index of the element, or \<open>-1\<close>.\<close>

fun indexOf_from :: "int \<Rightarrow> 'a list \<Rightarrow> 'a \<Rightarrow> int" where
  "indexOf_from i [] x = - 1"
| "indexOf_from i (y # ys) x = (if y = x then i else indexOf_from (i + 1) ys x)"

definition indexOf :: "'a list \<Rightarrow> 'a \<Rightarrow> int" where
  "indexOf xs x = indexOf_from 0 xs x"

text \<open>
  \<open>handleStateChange\<close>: \<open>running = !!~[...].indexOf(e.newState)\<close>, where \<open>~\<close> is the
  bitwise complement and \<open>!!\<close> is true of every number but 0; then the calls made on
  entering a state.
\<close>

definition handleStateChange :: "stateChange \<Rightarrow> node \<Rightarrow> node" where
  "handleStateChange e n =
     (let n1 = n\<lparr>running :=
                 (NOT (indexOf [''netConnect'', ''blockDownload'', ''default''] (newState e)) \<noteq> 0)\<rparr>
      in if newState e = ''init''
         then n1\<lparr>component_calls := component_calls n1 @ [BlockChainInit]\<rparr>
         else if newState e = ''netConnect''
         then n1\<lparr>component_calls := component_calls n1 @
                [PeerManagerEnable, TxSenderEnable, BcManagerEnable, RpcServerEnable]\<rparr>
         else n1)"

text \<open>
  \<open>setState\<close> refuses \<open>init\<close> unless the node is uninitialised; otherwise it stores the
  state and emits \<open>stateChange\<close>, which the constructor has bound to \<open>handleStateChange\<close>.
\<close>

definition setState :: "string \<Rightarrow> node \<Rightarrow> node" where
  "setState new n =
     (let old = state n in
      if new = ''init'' \<and> old \<noteq> None then n
      else handleStateChange \<lparr>oldState = old, newState = new\<rparr> (n\<lparr>state := Some new\<rparr>))"

definition start :: "node \<Rightarrow> node" where
  "start n = setState ''init'' n"

text \<open>The node as its constructor leaves it.\<close>

definition newNode :: node where
  "newNode = \<lparr>state = None, running = False, component_calls = []\<rparr>"

section \<open>TransactionStore (lib/transactionstore.js)\<close>

text \<open>
  A callback is a function of the caller (\<open>Fn k\<close>, told apart by \<open>k\<close>; the model
  records each call and assumes the function does not call back into the store), the
  closure that \<open>remove\<close> pushes on a waiter queue (\<open>RemoveLater h\<close>), or a value that
  is not a function (\<open>NotAFunction\<close>: an omitted callback, or the index that
  \<open>forEach\<close> passes as second argument).
\<close>

datatype callback =
    Fn nat
  | RemoveLater buffer
  | NotAFunction

fun isFunction :: "callback \<Rightarrow> bool" where
  "isFunction (Fn k) = True"
| "isFunction (RemoveLater h) = True"
| "isFunction NotAFunction = False"

text \<open>
  The value of \<open>txIndex[h]\<close>: an array of callbacks while the transaction is being
  verified, the transaction once it is verified.
\<close>

datatype entry =
    Verifying "callback list"
  | Accepted transaction

datatype event =
    TxNotify transaction
  | TxNotifyAcc string transaction
  | TxCancel transaction buffer
  | TxCancelAcc string transaction buffer

datatype cb_call = Called nat "js_error option" "transaction option"

text \<open>
  The store: its four indices, the configuration flag \<open>node.cfg.feature.liveAccounting\<close>,
  and what it has done to the outside: the verifications started by \<open>tx.verify\<close> whose
  callback has not run yet (\<open>inFlight\<close>), the events emitted and the callbacks called,
  each in order.
\<close>

record store =
  txIndex :: "buffer \<rightharpoonup> entry"
  txIndexByAcc :: "string \<rightharpoonup> buffer list"
  orphanTxIndex :: "buffer \<rightharpoonup> transaction"
  orphanTxByPrev :: "buffer \<rightharpoonup> transaction list"
  liveAccounting :: bool
  inFlight :: "transaction list"
  emitted :: "event list"
  called :: "cb_call list"

definition newStore :: "bool \<Rightarrow> store" where
  "newStore la = \<lparr>txIndex = Map.empty, txIndexByAcc = Map.empty, orphanTxIndex = Map.empty,
     orphanTxByPrev = Map.empty, liveAccounting = la, inFlight = [], emitted = [], called = []\<rparr>"

definition emit :: "event \<Rightarrow> store \<Rightarrow> store" where
  "emit e s = s\<lparr>emitted := emitted s @ [e]\<rparr>"

text \<open>
  \<open>remove(hash)\<close>: on an entry being verified, push the closure that removes it later;
  on a verified entry, delete it and emit \<open>txCancel\<close>, and \<open>txCancel:<account>\<close> for
  each affected account under live accounting; otherwise nothing.
\<close>

definition remove :: "buffer \<Rightarrow> store \<Rightarrow> store" where
  "remove h s =
     (case txIndex s h of
        Some (Verifying queue) \<Rightarrow>
          s\<lparr>txIndex := (txIndex s)(h \<mapsto> Verifying (queue @ [RemoveLater h]))\<rparr>
      | Some (Accepted tx) \<Rightarrow>
          (let s1 = emit (TxCancel tx h) (s\<lparr>txIndex := (txIndex s)(h := None)\<rparr>) in
           if liveAccounting s1
           then fold (\<lambda>i. emit (TxCancelAcc i tx h)) (getAffectedAccounts tx) s1
           else s1)
      | None \<Rightarrow> s)"

text \<open>
  Calling a callback with \<open>(err, tx)\<close>: a caller's function is recorded; the closure of
  \<open>remove\<close> returns on an error and calls \<open>remove\<close> otherwise; calling what is not a
  function throws a TypeError. The first component is what was thrown, if anything.
\<close>

fun invoke ::
  "callback \<Rightarrow> js_error option \<Rightarrow> transaction option \<Rightarrow> store \<Rightarrow> js_error option \<times> store" where
  "invoke (Fn k) err tx s = (None, s\<lparr>called := called s @ [Called k err tx]\<rparr>)"
| "invoke (RemoveLater h) err tx s = (None, if err \<noteq> None then s else remove h s)"
| "invoke NotAFunction err tx s = (Some TypeError, s)"

text \<open>\<open>callbackQueue.forEach(function (cb) { cb(err, tx); })\<close>: in order, up to a throw.\<close>

fun forEach_cb ::
  "callback list \<Rightarrow> js_error option \<Rightarrow> transaction option \<Rightarrow> store \<Rightarrow> js_error option \<times> store" where
  "forEach_cb [] err tx s = (None, s)"
| "forEach_cb (cb # cbs) err tx s =
     (case invoke cb err tx s of
        (Some thrown, s') \<Rightarrow> (Some thrown, s')
      | (None, s') \<Rightarrow> forEach_cb cbs err tx s')"

text \<open>The \<open>catch\<close> block of \<open>add\<close>: \<open>callback(e); return true\<close>.\<close>

definition add_catch :: "js_error \<Rightarrow> callback \<Rightarrow> store \<Rightarrow> (js_error + bool) \<times> store" where
  "add_catch e callback s =
     (case invoke callback (Some e) None s of
        (Some thrown, s') \<Rightarrow> (Inl thrown, s')
      | (None, s') \<Rightarrow> (Inr True, s'))"

text \<open>
  \<open>add(tx, callback)\<close>, up to the return: \<open>now\<close> is the clock read by \<open>new Date()\<close>.
  \<open>tx.verify\<close> is asynchronous (the comment of lines 25-26): the call puts the
  transaction in flight and returns, and its callback, \<open>verifyCallback\<close> below, runs in a
  later turn. The result is what \<open>add\<close> returns, or what it throws.
\<close>

definition add :: "nat \<Rightarrow> transaction \<Rightarrow> callback \<Rightarrow> store \<Rightarrow> (js_error + bool) \<times> store" where
  "add now tx callback s =
     (let txHash = getHash tx in
      case txIndex s txHash of
        Some (Verifying queue) \<Rightarrow>
          (Inr False,
           if isFunction callback
           then s\<lparr>txIndex := (txIndex s)(txHash \<mapsto> Verifying (queue @ [callback]))\<rparr>
           else s)
      | Some (Accepted known) \<Rightarrow>
          (if isFunction callback
           then (case invoke callback None (Some tx) s of
                   (Some thrown, s') \<Rightarrow> (Inl thrown, s')
                 | (None, s') \<Rightarrow> (Inr False, s'))
           else (Inr False, s))
      | None \<Rightarrow>
          (let tx1 = tx\<lparr>first_seen := Some now\<rparr> in
           if isCoinBase tx1
           then add_catch (Thrown ''Coinbase transactions are only allowed as part of a block'')
                  callback s
           else if \<not> isStandard tx1
           then add_catch (Thrown ''Non-standard transactions are currently not accepted'')
                  callback s
           else (Inr True,
                 s\<lparr>inFlight := inFlight s @ [tx1],
                   txIndex := (txIndex s)(txHash \<mapsto> Verifying [callback])\<rparr>)))"

text \<open>
  \<open>this.orphanTxByPrev[txHash].forEach(this.add.bind(this))\<close>: \<open>forEach\<close> calls
  \<open>add(orphan, index, array)\<close>, so the callback of each call is a number.
\<close>

fun forEach_add :: "nat \<Rightarrow> transaction list \<Rightarrow> store \<Rightarrow> js_error option \<times> store" where
  "forEach_add now [] s = (None, s)"
| "forEach_add now (orphan # orphans) s =
     (case add now orphan NotAFunction s of
        (Inl thrown, s') \<Rightarrow> (Some thrown, s')
      | (Inr r, s') \<Rightarrow> forEach_add now orphans s')"

definition processOrphans :: "nat \<Rightarrow> buffer \<Rightarrow> store \<Rightarrow> js_error option \<times> store" where
  "processOrphans now txHash s =
     (case orphanTxByPrev s txHash of
        None \<Rightarrow> (None, s)
      | Some orphans \<Rightarrow>
          (case forEach_add now orphans s of
             (Some thrown, s') \<Rightarrow> (Some thrown, s')
           | (None, s') \<Rightarrow> (None, s'\<lparr>orphanTxByPrev := (orphanTxByPrev s')(txHash := None)\<rparr>)))"

text \<open>Lines 113-125: the per-account index and events, under live accounting.\<close>

definition indexAccount :: "transaction \<Rightarrow> string \<Rightarrow> store \<Rightarrow> store" where
  "indexAccount tx i s =
     emit (TxNotifyAcc i tx)
       (s\<lparr>txIndexByAcc := (txIndexByAcc s)
             (i \<mapsto> (case txIndexByAcc s i of None \<Rightarrow> [] | Some l \<Rightarrow> l) @ [getHash tx])\<rparr>)"

definition notifyAccounts :: "transaction \<Rightarrow> store \<Rightarrow> store" where
  "notifyAccounts tx s =
     (if liveAccounting s then fold (indexAccount tx) (getAffectedAccounts tx) s else s)"

text \<open>
  The callback that \<open>add\<close> gives to \<open>tx.verify\<close> (lines 61-126), called with the
  verification's error, if any. The first component is what it throws, if anything.
\<close>

definition verifyCallback ::
  "nat \<Rightarrow> transaction \<Rightarrow> js_error option \<Rightarrow> store \<Rightarrow> js_error option \<times> store" where
  "verifyCallback now tx err s =
     (let txHash = getHash tx in
      case txIndex s txHash of
        Some (Verifying callbackQueue) \<Rightarrow>
          (case err of
             Some e \<Rightarrow>
               forEach_cb callbackQueue (Some e) (Some tx)
                 (case e of
                    MissingSourceError missingTxHash \<Rightarrow>
                      s\<lparr>orphanTxIndex := (orphanTxIndex s)(txHash \<mapsto> tx),
                        orphanTxByPrev := (orphanTxByPrev s)
                          (missingTxHash \<mapsto>
                             (case orphanTxByPrev s missingTxHash of
                                None \<Rightarrow> [tx]
                              | Some l \<Rightarrow> l @ [tx]))\<rparr>
                  | _ \<Rightarrow> s\<lparr>txIndex := (txIndex s)(txHash := None)\<rparr>)
           | None \<Rightarrow>
               (case forEach_cb callbackQueue None (Some tx)
                       (s\<lparr>txIndex := (txIndex s)(txHash \<mapsto> Accepted tx)\<rparr>) of
                  (Some thrown, s1) \<Rightarrow> (Some thrown, s1)
                | (None, s1) \<Rightarrow>
                    (case processOrphans now txHash s1 of
                       (Some thrown, s2) \<Rightarrow> (Some thrown, s2)
                     | (None, s2) \<Rightarrow> (None, notifyAccounts tx (emit (TxNotify tx) s2)))))
      | _ \<Rightarrow> (None, s))"

text \<open>
  The end of a verification: a transaction in flight leaves the flight list and its
  callback runs with the verification's outcome.
\<close>

definition verifyDone ::
  "nat \<Rightarrow> transaction \<Rightarrow> js_error option \<Rightarrow> store \<Rightarrow> js_error option \<times> store" where
  "verifyDone now tx err s = verifyCallback now tx err (s\<lparr>inFlight := remove1 tx (inFlight s)\<rparr>)"

text \<open>
  \<open>get(hash, callback)\<close>: the value returned (\<open>None\<close> for \<open>null\<close> and \<open>undefined\<close>),
  or what is thrown.
\<close>

definition get ::
  "buffer \<Rightarrow> callback \<Rightarrow> store \<Rightarrow> (js_error + transaction option) \<times> store" where
  "get h callback s =
     (case txIndex s h of
        Some (Verifying queue) \<Rightarrow>
          (Inr None,
           if isFunction callback
           then s\<lparr>txIndex := (txIndex s)(h \<mapsto> Verifying (queue @ [callback]))\<rparr>
           else s)
      | other \<Rightarrow>
          (let found = (case other of Some (Accepted tx) \<Rightarrow> Some tx | _ \<Rightarrow> None) in
           if isFunction callback
           then (case invoke callback None found s of
                   (Some thrown, s') \<Rightarrow> (Inl thrown, s')
                 | (None, s') \<Rightarrow> (Inr found, s'))
           else (Inr found, s)))"

text \<open>\<open>isKnown(hash)\<close>: \<open>!!this.txIndex[hash]\<close>; an array and a transaction are both truthy.\<close>

definition isKnown :: "buffer \<Rightarrow> store \<Rightarrow> bool" where
  "isKnown h s = (txIndex s h \<noteq> None)"

text \<open>
  \<open>handleTxAdd(e)\<close>, with \<open>e.tx\<close> as its argument: \<open>remove\<close>, then the loop over the
  inputs of a transaction that is not a coinbase, whose body is empty (lines 313-317 are
  a comment).
\<close>

definition handleTxAdd :: "transaction \<Rightarrow> store \<Rightarrow> store" where
  "handleTxAdd etx s =
     (let s1 = remove (getHash etx) s in
      if \<not> isCoinBase etx then fold (\<lambda>i s'. s') (ins etx) s1 else s1)"

text \<open>The three states of a mempool entry, as the store holds them.\<close>

definition is_verifying :: "store \<Rightarrow> buffer \<Rightarrow> bool" where
  "is_verifying s h = (case txIndex s h of Some (Verifying q) \<Rightarrow> True | _ \<Rightarrow> False)"

definition is_accepted :: "store \<Rightarrow> buffer \<Rightarrow> bool" where
  "is_accepted s h = (case txIndex s h of Some (Accepted tx) \<Rightarrow> True | _ \<Rightarrow> False)"

definition is_orphan :: "store \<Rightarrow> buffer \<Rightarrow> bool" where
  "is_orphan s h = (orphanTxIndex s h \<noteq> None)"

text \<open>
  The states the store can reach from its constructor by calls of \<open>add\<close>, \<open>get\<close>,
  \<open>remove\<close> and \<open>handleTxAdd\<close> and by ends of verifications in flight, with the set
  of hashes that were ever given to \<open>add\<close>. (\<open>find\<close> and \<open>findByAccount\<close> are
  sequences of \<open>get\<close>; \<open>getByAccount\<close> writes \<open>txIndexByAcc\<close> only.)
\<close>

inductive reach :: "buffer set \<Rightarrow> store \<Rightarrow> bool" where
  reach_new: "reach {} (newStore la)"
| reach_add: "reach S s \<Longrightarrow> reach (insert (getHash tx) S) (snd (add now tx cb s))"
| reach_get: "reach S s \<Longrightarrow> reach S (snd (get h cb s))"
| reach_remove: "reach S s \<Longrightarrow> reach S (remove h s)"
| reach_handleTxAdd: "reach S s \<Longrightarrow> reach S (handleTxAdd etx s)"
| reach_verifyDone:
    "reach S s \<Longrightarrow> tx \<in> set (inFlight s) \<Longrightarrow> reach S (snd (verifyDone now tx err s))"

text \<open>
  What the transitions keep true of a store, for the set \<open>S\<close> of hashes given to
  \<open>add\<close> so far: the transactions in flight have distinct hashes and each has a waiter
  queue; an orphan keeps its waiter queue and is not in flight; every key of \<open>txIndex\<close>
  and every transaction waiting in \<open>orphanTxByPrev\<close> was given to \<open>add\<close>.
\<close>

definition store_inv :: "buffer set \<Rightarrow> store \<Rightarrow> bool" where
  "store_inv S s =
     (distinct (map getHash (inFlight s)) \<and>
      (\<forall>tx \<in> set (inFlight s). is_verifying s (getHash tx)) \<and>
      (\<forall>h. is_orphan s h \<longrightarrow> is_verifying s h \<and> h \<notin> getHash ` set (inFlight s)) \<and>
      dom (txIndex s) \<subseteq> S \<and>
      (\<forall>m l. orphanTxByPrev s m = Some l \<longrightarrow> getHash ` set l \<subseteq> S))"

text \<open>
  A verified entry is stored under the hash of its transaction.
\<close>

definition accepted_keyed :: "store \<Rightarrow> bool" where
  "accepted_keyed s = (\<forall>h tx. txIndex s h = Some (Accepted tx) \<longrightarrow> getHash tx = h)"

section \<open>Example inputs\<close>

text \<open>
  A block whose hash has the little-endian value 1, and a target of big-endian value 2,
  both of 32 bytes.
\<close>

definition pow_block :: block where
  "pow_block = \<lparr>hash = Some (1 # replicate 31 0), prev_hash = None, merkle_root = None,
     timestamp = 0, bits = 486604799, nonce = 0, version = ''1'', height = - 1,
     size_bytes = 0, active = False, chainWork = None\<rparr>"

definition pow_target :: "nat \<Rightarrow> buffer" where
  "pow_target n = replicate 31 0 @ [2]"

text \<open>The same block with a hash of little-endian value 3, above the target.\<close>

definition pow_block_high :: block where
  "pow_block_high = pow_block\<lparr>hash := Some (3 # replicate 31 0)\<rparr>"

text \<open>
  A block whose merkle root is the hash of its only transaction, which is the canonical
  merkle root of that list.
\<close>

definition coinbase_tx :: transaction where
  "coinbase_tx = \<lparr>getHash = [7], isCoinBase = True, isStandard = True,
     ins = [\<lparr>op_hash = replicate 32 0, op_index = 4294967295\<rparr>],
     getAffectedAccounts = [], first_seen = None\<rparr>"

definition merkle_block :: block where
  "merkle_block = \<lparr>hash = Some (1 # replicate 31 0), prev_hash = None, merkle_root = Some [7],
     timestamp = 0, bits = 486604799, nonce = 0, version = ''1'', height = - 1,
     size_bytes = 0, active = False, chainWork = None\<rparr>"

text \<open>
  Two mempool transactions: \<open>tx_P\<close> spends an output of a confirmed transaction, and
  \<open>tx_C\<close> spends an output of \<open>tx_P\<close>. \<open>seen t tx\<close> is the transaction object after
  \<open>add\<close> has stamped it at time \<open>t\<close>.
\<close>

definition tx_P :: transaction where
  "tx_P = \<lparr>getHash = [1], isCoinBase = False, isStandard = True,
     ins = [\<lparr>op_hash = [9], op_index = 0\<rparr>],
     getAffectedAccounts = [], first_seen = None\<rparr>"

definition tx_C :: transaction where
  "tx_C = \<lparr>getHash = [2], isCoinBase = False, isStandard = True,
     ins = [\<lparr>op_hash = [1], op_index = 0\<rparr>],
     getAffectedAccounts = [], first_seen = None\<rparr>"

definition seen :: "nat \<Rightarrow> transaction \<Rightarrow> transaction" where
  "seen t tx = tx\<lparr>first_seen := Some t\<rparr>"

text \<open>
  The orphan scenario: \<open>tx_C\<close> is added and its verification ends with a missing source
  \<open>[1]\<close>; then \<open>tx_P\<close>, whose hash is \<open>[1]\<close>, is added and verifies.
\<close>

definition orphan_store :: store where
  "orphan_store =
     snd (verifyDone 11 (seen 10 tx_C) (Some (MissingSourceError [1]))
       (snd (add 10 tx_C (Fn 1) (newStore False))))"

definition promoted_store :: store where
  "promoted_store =
     snd (verifyDone 13 (seen 12 tx_P) None (snd (add 12 tx_P (Fn 2) orphan_store)))"

text \<open>
  The conflict scenario: \<open>tx_P\<close> is in the mempool, verified, and a block brings
  \<open>tx_Q\<close>, another transaction that spends the same outpoint.
\<close>

definition tx_Q :: transaction where
  "tx_Q = \<lparr>getHash = [3], isCoinBase = False, isStandard = True,
     ins = [\<lparr>op_hash = [9], op_index = 0\<rparr>],
     getAffectedAccounts = [], first_seen = None\<rparr>"

text \<open>A transaction that is not standard.\<close>

definition tx_N :: transaction where
  "tx_N = \<lparr>getHash = [4], isCoinBase = False, isStandard = False,
     ins = [\<lparr>op_hash = [9], op_index = 1\<rparr>],
     getAffectedAccounts = [], first_seen = None\<rparr>"

definition pool_store :: store where
  "pool_store = snd (verifyDone 13 (seen 12 tx_P) None (snd (add 12 tx_P (Fn 2) (newStore False))))"

text \<open>A store where \<open>tx_C\<close> is being verified.\<close>

definition verifying_store :: store where
  "verifying_store = snd (add 10 tx_C (Fn 1) (newStore False))"

text \<open>
  A store where \<open>tx_P\<close> is being verified and other calls have followed its
  submission: \<open>tx_C\<close> was submitted, \<open>get\<close> asked for \<open>tx_C\<close>, and \<open>remove\<close> was
  called for \<open>tx_P\<close>.
\<close>

definition busy_store :: store where
  "busy_store =
     remove [1] (snd (get [2] (Fn 9)
       (snd (add 14 tx_C (Fn 8) (snd (add 12 tx_P (Fn 2) (newStore False)))))))"

section \<open>Proof of work: the bytewise comparison is the numeric one\<close>

lemma be_acc_shift: "be_acc a xs = a * 256 ^ length xs + be_acc 0 xs"
proof (induction xs arbitrary: a)
  case Nil
  show ?case by simp
next
  case (Cons x xs)
  have "be_acc a (x # xs) = be_acc (256 * a + unat x) xs" by simp
  also have "\<dots> = (256 * a + unat x) * 256 ^ length xs + be_acc 0 xs"
    by (rule Cons.IH)
  also have "\<dots> = a * 256 ^ length (x # xs) + (unat x * 256 ^ length xs + be_acc 0 xs)"
    by (simp add: algebra_simps)
  also have "unat x * 256 ^ length xs + be_acc 0 xs = be_acc 0 (x # xs)"
    using Cons.IH [of "unat x"] by simp
  finally show ?case .
qed

lemma byte_bound: "unat (x :: byte) \<le> 255"
  using unsigned_less [of x, where ?'a = nat] by simp

lemma be_acc_bound: "be_acc 0 xs < 256 ^ length xs"
proof (induction xs)
  case Nil
  show ?case by simp
next
  case (Cons x xs)
  have "be_acc 0 (x # xs) = unat x * 256 ^ length xs + be_acc 0 xs"
    using be_acc_shift [of "unat x" xs] by simp
  also have "\<dots> < unat x * 256 ^ length xs + 256 ^ length xs"
    using Cons.IH by simp
  also have "\<dots> = (unat x + 1) * 256 ^ length xs" by (simp add: algebra_simps)
  also have "\<dots> \<le> 256 * 256 ^ length xs"
    using byte_bound [of x] by (intro mult_right_mono) simp_all
  finally show ?case by simp
qed

lemma be_acc_append: "be_acc a (xs @ ys) = be_acc (be_acc a xs) ys"
  by (induction xs arbitrary: a) simp_all

lemma uint_be_rev: "uint_be (rev xs) = uint_le xs"
proof (induction xs)
  case Nil
  show ?case by (simp add: uint_be_def)
next
  case (Cons x xs)
  have "uint_be (rev (x # xs)) = be_acc (be_acc 0 (rev xs)) [x]"
    by (simp add: uint_be_def be_acc_append)
  also have "\<dots> = 256 * uint_le xs + unat x"
    using Cons.IH by (simp add: uint_be_def)
  finally show ?case by simp
qed

lemma compare_gt_iff:
  "length xs = length ys \<Longrightarrow> (buffer_compare xs ys > 0) = (uint_be xs > uint_be ys)"
proof (induction xs ys rule: list_induct2)
  case Nil
  show ?case by (simp add: uint_be_def)
next
  case (Cons x xs y ys)
  let ?p = "(256::nat) ^ length xs"
  have ex: "be_acc 0 (x # xs) = unat x * ?p + be_acc 0 xs"
    using be_acc_shift [of "unat x" xs] by simp
  have ey: "be_acc 0 (y # ys) = unat y * ?p + be_acc 0 ys"
    using be_acc_shift [of "unat y" ys] Cons.hyps by simp
  have bx: "be_acc 0 xs < ?p" by (rule be_acc_bound)
  have by': "be_acc 0 ys < ?p" using be_acc_bound [of ys] Cons.hyps by simp
  show ?case
  proof (cases "x < y")
    case True
    then have "unat x + 1 \<le> unat y" by (simp add: word_less_nat_alt)
    then have "(unat x + 1) * ?p \<le> unat y * ?p" by (rule mult_right_mono) simp
    then have "be_acc 0 (x # xs) < be_acc 0 (y # ys)"
      using bx ex ey by (simp add: algebra_simps)
    with True show ?thesis by (simp add: uint_be_def)
  next
    case nlt: False
    show ?thesis
    proof (cases "y < x")
      case True
      then have "unat y + 1 \<le> unat x" by (simp add: word_less_nat_alt)
      then have "(unat y + 1) * ?p \<le> unat x * ?p" by (rule mult_right_mono) simp
      then have "be_acc 0 (y # ys) < be_acc 0 (x # xs)"
        using by' ex ey by (simp add: algebra_simps)
      with True nlt show ?thesis by (simp add: uint_be_def)
    next
      case False
      with nlt have "x = y" by simp
      then show ?thesis using Cons.IH ex ey by (simp add: uint_be_def)
    qed
  qed
qed


lemma uint_le_zeros: "uint_le (replicate n 0) = 0"
  by (induction n) simp_all

lemma be_acc_zeros: "be_acc 0 (replicate n 0 @ xs) = be_acc 0 xs"
  by (induction n) simp_all

lemma compare_zeros:
  "buffer_compare (replicate n 0 @ xs) (replicate n 0 @ ys) = buffer_compare xs ys"
  by (induction n) simp_all

lemma pow_block_passes: "fst (checkProofOfWork pow_target pow_block) = Inr True"
  using compare_zeros [of 31 "[1]" "[2]"]
  by (simp add: checkProofOfWork_def pow_block_def pow_target_def Let_def)

lemma checkBlock_pow:
  assumes "fst (checkProofOfWork D b) = Inl e"
  shows "fst (checkBlock D now b txs) = Inl e"
proof -
  obtain r b1 where eq: "checkProofOfWork D b = (r, b1)"
    by (cases "checkProofOfWork D b")
  with assms have "r = Inl e" by simp
  with eq show ?thesis by (simp add: checkBlock_def)
qed

text \<open>
  C5. For a block with a 32-byte hash and a 32-byte target from \<open>decodeDiffBits\<close>,
  \<open>checkProofOfWork\<close> returns true exactly when the hash, read as an unsigned
  little-endian integer, is at most the target (read big-endian, as the buffers are
  compared after the hash is reversed), and it throws "Difficulty target not met"
  exactly when the hash exceeds the target; \<open>checkBlock\<close> then ends with that error,
  whatever the time and the transactions.
\<close>

theorem checkProofOfWork_iff:
  assumes "hash b = Some h" and "length h = 32" and "length (D (bits b)) = 32"
  shows "(fst (checkProofOfWork D b) = Inr True) = (uint_le h \<le> uint_be (D (bits b))) \<and>
         (fst (checkProofOfWork D b) = Inl (Thrown ''Difficulty target not met'')) =
           (uint_be (D (bits b)) < uint_le h) \<and>
         (uint_be (D (bits b)) < uint_le h \<longrightarrow>
            fst (checkBlock D now b txs) = Inl (Thrown ''Difficulty target not met''))"
proof -
  have len: "length (rev h) = length (D (bits b))" using assms by simp
  have cmp: "(buffer_compare (rev h) (D (bits b)) > 0) = (uint_le h > uint_be (D (bits b)))"
    using compare_gt_iff [OF len] by (simp add: uint_be_rev)
  have ok: "(fst (checkProofOfWork D b) = Inr True) = (uint_le h \<le> uint_be (D (bits b)))"
    using assms(1) cmp by (auto simp: checkProofOfWork_def Let_def)
  have err: "(fst (checkProofOfWork D b) = Inl (Thrown ''Difficulty target not met'')) =
           (uint_be (D (bits b)) < uint_le h)"
    using assms(1) cmp by (auto simp: checkProofOfWork_def Let_def)
  have blk: "uint_be (D (bits b)) < uint_le h \<longrightarrow>
            fst (checkBlock D now b txs) = Inl (Thrown ''Difficulty target not met'')"
    using err checkBlock_pow [of D b "Thrown ''Difficulty target not met''" now txs] by simp
  from ok err blk show ?thesis by simp
qed

theorem checkProofOfWork_iff_witness:
  "hash pow_block = Some (1 # replicate 31 0) \<and> length (1 # replicate 31 (0 :: byte)) = 32 \<and>
   length (pow_target (bits pow_block)) = 32 \<and>
   uint_le (1 # replicate 31 0) \<le> uint_be (pow_target (bits pow_block)) \<and>
   fst (checkProofOfWork pow_target pow_block) = Inr True \<and>
   hash pow_block_high = Some (3 # replicate 31 0) \<and>
   uint_be (pow_target (bits pow_block_high)) < uint_le (3 # replicate 31 0) \<and>
   fst (checkProofOfWork pow_target pow_block_high) = Inl (Thrown ''Difficulty target not met'') \<and>
   fst (checkBlock pow_target 0 pow_block_high None) = Inl (Thrown ''Difficulty target not met'')"
proof -
  have h1: "hash pow_block = Some (1 # replicate 31 0)" by (simp add: pow_block_def)
  have h2: "length (1 # replicate 31 (0 :: byte)) = 32" by simp
  have h3: "length (pow_target (bits pow_block)) = 32" by (simp add: pow_target_def)
  have le: "uint_le (1 # replicate 31 0) \<le> uint_be (pow_target (bits pow_block))"
    by (simp add: uint_le_zeros uint_be_def pow_target_def be_acc_zeros)
  have g1: "hash pow_block_high = Some (3 # replicate 31 0)"
    by (simp add: pow_block_high_def)
  have g2: "length (3 # replicate 31 (0 :: byte)) = 32" by simp
  have g3: "length (pow_target (bits pow_block_high)) = 32" by (simp add: pow_target_def)
  have gt: "uint_be (pow_target (bits pow_block_high)) < uint_le (3 # replicate 31 0)"
    by (simp add: uint_le_zeros uint_be_def pow_target_def be_acc_zeros)
  from checkProofOfWork_iff [of pow_block "1 # replicate 31 0" pow_target, OF h1 h2 h3] le
  have c1: "fst (checkProofOfWork pow_target pow_block) = Inr True" by simp
  from checkProofOfWork_iff [of pow_block_high "3 # replicate 31 0" pow_target 0 None, OF g1 g2 g3] gt
  have c2: "fst (checkProofOfWork pow_target pow_block_high) =
              Inl (Thrown ''Difficulty target not met'') \<and>
            fst (checkBlock pow_target 0 pow_block_high None) =
              Inl (Thrown ''Difficulty target not met'')"
    by simp
  from h1 h2 h3 le g1 gt c1 c2 show ?thesis by simp
qed

text \<open>
  C9. When \<open>checkProofOfWork\<close> returns true, the block is as it was before the call:
  the hash has been reversed twice and no other field has been written.
\<close>

theorem checkProofOfWork_restores:
  "fst (checkProofOfWork D b) = Inr True \<Longrightarrow> snd (checkProofOfWork D b) = b"
  by (auto simp: checkProofOfWork_def Let_def split: option.splits if_splits)

theorem checkProofOfWork_restores_witness:
  "fst (checkProofOfWork pow_target pow_block) = Inr True \<and>
   snd (checkProofOfWork pow_target pow_block) = pow_block"
proof -
  have ok: "fst (checkProofOfWork pow_target pow_block) = Inr True"
    by (rule pow_block_passes)
  from checkProofOfWork_restores [of pow_target pow_block, OF ok] ok show ?thesis by simp
qed

section \<open>The running flag of the node\<close>

text \<open>
  C7, as the claim states it, fails: the node that enters the state \<open>active\<close> from
  \<open>blockDownload\<close> is not running.
\<close>

theorem running_active_counterexample:
  "state (setState ''active'' (setState ''blockDownload'' (setState ''netConnect'' (start newNode))))
     = Some ''active'' \<and>
   \<not> running (setState ''active'' (setState ''blockDownload'' (setState ''netConnect'' (start newNode))))"
  by (simp add: setState_def start_def newNode_def handleStateChange_def indexOf_def Let_def)

text \<open>
  C7, amended. After every state transition (every \<open>setState\<close> that is not a refused
  return to \<open>init\<close>), the node is in the new state and \<open>running\<close> is true exactly when
  the new state is \<open>netConnect\<close>, \<open>blockDownload\<close> or \<open>default\<close>.
\<close>

theorem setState_running:
  "\<not> (new = ''init'' \<and> state n \<noteq> None) \<Longrightarrow>
   state (setState new n) = Some new \<and>
   running (setState new n) = (new = ''netConnect'' \<or> new = ''blockDownload'' \<or> new = ''default'')"
  by (auto simp: setState_def handleStateChange_def indexOf_def Let_def)

theorem setState_running_witness:
  "\<not> (''netConnect'' = ''init'' \<and> state (start newNode) \<noteq> None) \<and>
   state (setState ''netConnect'' (start newNode)) = Some ''netConnect'' \<and>
   running (setState ''netConnect'' (start newNode))"
proof -
  have h: "\<not> (''netConnect'' = ''init'' \<and> state (start newNode) \<noteq> None)" by simp
  from setState_running [OF h] h show ?thesis by simp
qed

section \<open>The merkle root check\<close>

text \<open>
  Whatever the block and its transactions, \<open>checkMerkleRoot\<close> does not return true:
  without a stored root it throws, and with one the call of \<open>calcMerkleRoot\<close> without
  its argument raises a TypeError.
\<close>

lemma checkMerkleRoot_never_true: "checkMerkleRoot b txs \<noteq> Inr True"
  by (simp add: checkMerkleRoot_def calcMerkleRoot_def split: option.splits)

lemma checkBlock_never_true: "fst (checkBlock D now b (Some txs)) \<noteq> Inr True"
proof -
  obtain r b1 where eq: "checkProofOfWork D b = (r, b1)"
    by (cases "checkProofOfWork D b")
  show ?thesis
    using eq checkMerkleRoot_never_true [of b1 txs]
    by (auto simp: checkBlock_def split: sum.splits)
qed

text \<open>
  C1 (the code departs from the claim). For the block \<open>merkle_block\<close>, whose
  \<open>merkle_root\<close> is the canonical merkle root of its transaction list, the claim has
  \<open>checkMerkleRoot\<close> succeed; the code raises a TypeError, and so does \<open>checkBlock\<close>
  after the block has passed the checks of proof of work, timestamp and transaction
  list.
\<close>

theorem checkMerkleRoot_matching_root_throws:
  "merkle_root merkle_block = Some (canonical_merkle_root H (map getHash [coinbase_tx])) \<and>
   checkMerkleRoot merkle_block [coinbase_tx] = Inl TypeError \<and>
   fst (checkProofOfWork pow_target merkle_block) = Inr True \<and>
   checkTimestamp 0 merkle_block = Inr True \<and>
   checkTransactions [coinbase_tx] = Inr True \<and>
   fst (checkBlock pow_target 0 merkle_block (Some [coinbase_tx])) = Inl TypeError"
proof -
  have pow: "checkProofOfWork pow_target merkle_block = (Inr True, merkle_block)"
    using compare_zeros [of 31 "[1]" "[2]"]
    by (simp add: checkProofOfWork_def merkle_block_def pow_target_def Let_def)
  have ts: "checkTimestamp 0 merkle_block = Inr True"
    by (simp add: checkTimestamp_def merkle_block_def)
  have shape: "checkTransactions [coinbase_tx] = Inr True"
    by (simp add: checkTransactions_def coinbase_tx_def)
  have mr: "checkMerkleRoot merkle_block [coinbase_tx] = Inl TypeError"
    by (simp add: merkle_block_def checkMerkleRoot_def calcMerkleRoot_def)
  have root: "merkle_root merkle_block = Some (canonical_merkle_root H (map getHash [coinbase_tx]))"
    by (simp add: merkle_block_def coinbase_tx_def)
  have blk: "fst (checkBlock pow_target 0 merkle_block (Some [coinbase_tx])) = Inl TypeError"
    using pow ts shape mr by (simp add: checkBlock_def)
  from root mr pow ts shape blk show ?thesis by simp
qed

section \<open>The transaction store on the example scenarios\<close>

text \<open>
  C2 (the code departs from the claim). \<open>tx_C\<close> is added and becomes an orphan that
  misses the hash of \<open>tx_P\<close>; then \<open>tx_P\<close> is added and verifies. The claim has
  \<open>tx_C\<close> accepted afterwards with one \<open>txNotify\<close> per transaction. In the code the
  entry of \<open>tx_C\<close> is still its waiter queue, so the \<open>add\<close> that feeds it again
  returns false without starting a verification: \<open>tx_C\<close> is never accepted, nothing is
  in flight, and the only event is the \<open>txNotify\<close> of \<open>tx_P\<close>.
\<close>

theorem orphan_not_promoted:
  "fst (verifyDone 11 (seen 10 tx_C) (Some (MissingSourceError [1]))
         (snd (add 10 tx_C (Fn 1) (newStore False)))) = None \<and>
   is_orphan orphan_store (getHash tx_C) \<and>
   getHash tx_P = [1] \<and>
   fst (add 12 tx_P (Fn 2) orphan_store) = Inr True \<and>
   fst (verifyDone 13 (seen 12 tx_P) None (snd (add 12 tx_P (Fn 2) orphan_store))) = None \<and>
   is_accepted promoted_store (getHash tx_P) \<and>
   \<not> is_accepted promoted_store (getHash tx_C) \<and>
   txIndex promoted_store (getHash tx_C) = Some (Verifying [Fn 1]) \<and>
   inFlight promoted_store = [] \<and>
   orphanTxByPrev promoted_store [1] = None \<and>
   emitted promoted_store = [TxNotify (seen 12 tx_P)] \<and>
   called promoted_store =
     [Called 1 (Some (MissingSourceError [1])) (Some (seen 10 tx_C)),
      Called 2 None (Some (seen 12 tx_P))]"
  by (simp add: promoted_store_def orphan_store_def verifyDone_def verifyCallback_def add_def
      newStore_def processOrphans_def notifyAccounts_def emit_def is_orphan_def is_accepted_def
      tx_C_def tx_P_def seen_def Let_def)

text \<open>
  C3 (the code departs from the claim). \<open>tx_P\<close> is in the mempool, verified, and
  \<open>handleTxAdd\<close> is told of \<open>tx_Q\<close>, which is not a coinbase and spends the same
  outpoint. The claim has \<open>tx_P\<close> evicted with a \<open>txCancel\<close>; the code leaves
  \<open>tx_P\<close> in the mempool and emits nothing.
\<close>

theorem conflict_not_evicted:
  "is_accepted pool_store (getHash tx_P) \<and>
   ins tx_Q = ins tx_P \<and> \<not> isCoinBase tx_Q \<and>
   is_accepted (handleTxAdd tx_Q pool_store) (getHash tx_P) \<and>
   emitted (handleTxAdd tx_Q pool_store) = emitted pool_store \<and>
   emitted pool_store = [TxNotify (seen 12 tx_P)]"
  by (simp add: pool_store_def verifyDone_def verifyCallback_def add_def handleTxAdd_def
      remove_def newStore_def processOrphans_def notifyAccounts_def emit_def is_accepted_def
      tx_Q_def tx_P_def seen_def Let_def)

section \<open>The branches of \<open>add\<close> and \<open>remove\<close>\<close>

text \<open>
  C10. \<open>remove(h)\<close> for a hash with no entry in \<open>txIndex\<close> (neither a waiter queue
  nor a transaction) leaves the store as it is: its maps are unchanged and no event is
  emitted.
\<close>

theorem remove_absent: "txIndex s h = None \<Longrightarrow> remove h s = s"
  by (simp add: remove_def)

theorem remove_absent_witness:
  "txIndex (newStore True) [1] = None \<and> remove [1] (newStore True) = newStore True"
proof -
  have h: "txIndex (newStore True) [1] = None" by (simp add: newStore_def)
  from remove_absent [OF h] h show ?thesis by simp
qed

text \<open>
  C8. When \<open>add(tx, cb)\<close> finds no entry for the hash and \<open>tx\<close> is a coinbase or is
  not standard, \<open>cb\<close> is called once, at once, with the error and no transaction,
  \<open>add\<close> returns true, and the store is unchanged but for the record of that call: no
  waiter queue is created, no verification is started, and \<open>isKnown\<close> of the hash is
  false afterwards.
\<close>

theorem add_rejected:
  assumes "txIndex s (getHash tx) = None" and "isCoinBase tx \<or> \<not> isStandard tx"
  shows "add now tx (Fn k) s =
           (Inr True,
            s\<lparr>called := called s @
               [Called k
                  (Some (Thrown (if isCoinBase tx
                     then ''Coinbase transactions are only allowed as part of a block''
                     else ''Non-standard transactions are currently not accepted'')))
                  None]\<rparr>) \<and>
         \<not> is_verifying (snd (add now tx (Fn k) s)) (getHash tx) \<and>
         \<not> isKnown (getHash tx) (snd (add now tx (Fn k) s))"
  using assms by (auto simp: add_def add_catch_def is_verifying_def isKnown_def Let_def)

theorem add_rejected_witness:
  "txIndex pool_store (getHash coinbase_tx) = None \<and> isCoinBase coinbase_tx \<and>
   fst (add 20 coinbase_tx (Fn 3) pool_store) = Inr True \<and>
   txIndex (snd (add 20 coinbase_tx (Fn 3) pool_store)) = txIndex pool_store \<and>
   inFlight (snd (add 20 coinbase_tx (Fn 3) pool_store)) = inFlight pool_store \<and>
   \<not> isKnown (getHash coinbase_tx) (snd (add 20 coinbase_tx (Fn 3) pool_store)) \<and>
   txIndex pool_store (getHash tx_N) = None \<and> \<not> isStandard tx_N \<and>
   add 21 tx_N (Fn 4) pool_store =
     (Inr True,
      pool_store\<lparr>called := called pool_store @
        [Called 4 (Some (Thrown ''Non-standard transactions are currently not accepted'')) None]\<rparr>)"
proof -
  have h1: "txIndex pool_store (getHash coinbase_tx) = None"
    by (simp add: pool_store_def verifyDone_def verifyCallback_def add_def newStore_def
        processOrphans_def notifyAccounts_def emit_def tx_P_def coinbase_tx_def seen_def Let_def)
  have h2: "isCoinBase coinbase_tx \<or> \<not> isStandard coinbase_tx"
    by (simp add: coinbase_tx_def)
  have h3: "isCoinBase coinbase_tx" by (simp add: coinbase_tx_def)
  have n1: "txIndex pool_store (getHash tx_N) = None"
    by (simp add: pool_store_def verifyDone_def verifyCallback_def add_def newStore_def
        processOrphans_def notifyAccounts_def emit_def tx_P_def tx_N_def seen_def Let_def)
  have n2: "isCoinBase tx_N \<or> \<not> isStandard tx_N" by (simp add: tx_N_def)
  have n3: "\<not> isCoinBase tx_N \<and> \<not> isStandard tx_N" by (simp add: tx_N_def)
  from add_rejected [OF h1 h2, of 20 3] h1 h3
  have c1: "fst (add 20 coinbase_tx (Fn 3) pool_store) = Inr True \<and>
   txIndex (snd (add 20 coinbase_tx (Fn 3) pool_store)) = txIndex pool_store \<and>
   inFlight (snd (add 20 coinbase_tx (Fn 3) pool_store)) = inFlight pool_store \<and>
   \<not> isKnown (getHash coinbase_tx) (snd (add 20 coinbase_tx (Fn 3) pool_store))"
    by (simp add: isKnown_def)
  from add_rejected [OF n1 n2, of 21 4] n3
  have c2: "add 21 tx_N (Fn 4) pool_store =
     (Inr True,
      pool_store\<lparr>called := called pool_store @
        [Called 4 (Some (Thrown ''Non-standard transactions are currently not accepted'')) None]\<rparr>)"
    by simp
  from h1 h3 n1 n3 c1 c2 show ?thesis by simp
qed

lemma pool_store_entry: "txIndex pool_store (getHash tx_P) = Some (Accepted (seen 12 tx_P))"
  by (simp add: pool_store_def verifyDone_def verifyCallback_def add_def newStore_def
      processOrphans_def notifyAccounts_def emit_def tx_P_def seen_def Let_def)

section \<open>The invariant of the transaction store\<close>

lemma is_verifying_iff: "is_verifying s h = (\<exists>q. txIndex s h = Some (Verifying q))"
  by (simp add: is_verifying_def split: option.splits entry.splits)

lemma is_accepted_iff: "is_accepted s h = (\<exists>tx. txIndex s h = Some (Accepted tx))"
  by (simp add: is_accepted_def split: option.splits entry.splits)

lemma store_inv_cong:
  assumes "store_inv S s"
    and "txIndex s' = txIndex s" and "orphanTxIndex s' = orphanTxIndex s"
    and "orphanTxByPrev s' = orphanTxByPrev s" and "inFlight s' = inFlight s"
  shows "store_inv S s'"
  using assms by (simp add: store_inv_def is_verifying_iff is_orphan_def)

lemma store_inv_mono: "store_inv S s \<Longrightarrow> S \<subseteq> S' \<Longrightarrow> store_inv S' s"
  unfolding store_inv_def by blast

lemma store_inv_new: "store_inv {} (newStore la)"
  by (simp add: store_inv_def newStore_def is_orphan_def)

lemma store_inv_emit: "store_inv S s \<Longrightarrow> store_inv S (emit e s)"
  by (erule store_inv_cong) (simp_all add: emit_def)

lemma store_inv_fold_emit: "store_inv S s \<Longrightarrow> store_inv S (fold (\<lambda>i. emit (f i)) xs s)"
  by (induction xs arbitrary: s) (simp_all add: store_inv_emit)

text \<open>Rewriting a waiter queue.\<close>

lemma store_inv_queue:
  assumes "store_inv S s" and "txIndex s h = Some (Verifying q)"
  shows "store_inv S (s\<lparr>txIndex := (txIndex s)(h \<mapsto> Verifying q')\<rparr>)"
  using assms unfolding store_inv_def is_verifying_iff is_orphan_def
  by auto

text \<open>Settling an entry that is neither in flight nor an orphan.\<close>

lemma store_inv_settle:
  assumes "store_inv S s" and "h \<notin> getHash ` set (inFlight s)" and "\<not> is_orphan s h"
    and "h \<in> S"
  shows "store_inv S (s\<lparr>txIndex := (txIndex s)(h := v)\<rparr>)"
  using assms unfolding store_inv_def is_verifying_iff is_orphan_def
  by auto

lemma accepted_not_in_flight:
  assumes "store_inv S s" and "txIndex s h = Some (Accepted tx)"
  shows "h \<notin> getHash ` set (inFlight s)" and "\<not> is_orphan s h" and "h \<in> S"
  using assms unfolding store_inv_def is_verifying_iff is_orphan_def
  by auto

lemma store_inv_remove: "store_inv S s \<Longrightarrow> store_inv S (remove h s)"
proof -
  assume inv: "store_inv S s"
  show ?thesis
  proof (cases "txIndex s h")
    case None
    then show ?thesis using inv by (simp add: remove_def)
  next
    case (Some e)
    show ?thesis
    proof (cases e)
      case (Verifying q)
      with Some inv show ?thesis by (simp add: remove_def store_inv_queue)
    next
      case (Accepted tx)
      have "store_inv S (s\<lparr>txIndex := (txIndex s)(h := None)\<rparr>)"
        using accepted_not_in_flight [OF inv] Some Accepted
        by (intro store_inv_settle [OF inv]) auto
      then show ?thesis using Some Accepted
        by (simp add: remove_def Let_def store_inv_emit store_inv_fold_emit)
    qed
  qed
qed

lemma store_inv_invoke: "store_inv S s \<Longrightarrow> store_inv S (snd (invoke cb err tx s))"
proof (cases cb)
  case (Fn k)
  assume "store_inv S s"
  then show ?thesis unfolding Fn by (simp, elim store_inv_cong) simp_all
next
  case (RemoveLater h)
  assume "store_inv S s"
  then show ?thesis unfolding RemoveLater by (simp add: store_inv_remove)
next
  case NotAFunction
  assume "store_inv S s"
  then show ?thesis unfolding NotAFunction by simp
qed

lemma store_inv_forEach_cb: "store_inv S s \<Longrightarrow> store_inv S (snd (forEach_cb cbs err tx s))"
proof (induction cbs arbitrary: s)
  case Nil
  then show ?case by simp
next
  case (Cons cb cbs)
  have step: "store_inv S (snd (invoke cb err tx s))"
    using Cons.prems by (rule store_inv_invoke)
  show ?case
  proof (cases "invoke cb err tx s")
    case (Pair thrown s')
    with step have inv': "store_inv S s'" by simp
    show ?thesis
    proof (cases thrown)
      case None
      with Pair Cons.IH [OF inv'] show ?thesis by simp
    next
      case (Some e)
      with Pair inv' show ?thesis by simp
    qed
  qed
qed

lemma fold_emit_fields:
  "txIndex (fold (\<lambda>i. emit (f i)) xs s) = txIndex s"
  "orphanTxIndex (fold (\<lambda>i. emit (f i)) xs s) = orphanTxIndex s"
  "orphanTxByPrev (fold (\<lambda>i. emit (f i)) xs s) = orphanTxByPrev s"
  "inFlight (fold (\<lambda>i. emit (f i)) xs s) = inFlight s"
  by (induction xs arbitrary: s) (simp_all add: emit_def)

text \<open>Starting a verification for a hash without entry.\<close>

lemma store_inv_launch:
  assumes inv: "store_inv S s" and none: "txIndex s (getHash tx) = None"
    and same: "getHash tx1 = getHash tx"
  shows "store_inv (insert (getHash tx) S)
           (s\<lparr>inFlight := inFlight s @ [tx1],
              txIndex := (txIndex s)(getHash tx \<mapsto> Verifying [cb])\<rparr>)"
proof -
  let ?h = "getHash tx"
  have fresh: "?h \<notin> getHash ` set (inFlight s)"
    using inv none unfolding store_inv_def is_verifying_iff by auto
  have no_orphan: "\<not> is_orphan s ?h"
    using inv none unfolding store_inv_def is_verifying_iff by auto
  have d: "distinct (map getHash (inFlight s @ [tx1]))"
    using inv fresh same unfolding store_inv_def by simp
  have v: "\<forall>t \<in> set (inFlight s @ [tx1]).
             \<exists>q. ((txIndex s)(?h \<mapsto> Verifying [cb])) (getHash t) = Some (Verifying q)"
    using inv same unfolding store_inv_def is_verifying_iff by auto
  have o: "\<forall>h. orphanTxIndex s h \<noteq> None \<longrightarrow>
             (\<exists>q. ((txIndex s)(?h \<mapsto> Verifying [cb])) h = Some (Verifying q)) \<and>
             h \<notin> getHash ` set (inFlight s @ [tx1])"
    using inv no_orphan same unfolding store_inv_def is_verifying_iff is_orphan_def by auto
  have dm: "dom ((txIndex s)(?h \<mapsto> Verifying [cb])) \<subseteq> insert ?h S"
    using inv unfolding store_inv_def by auto
  have l: "\<forall>m l. orphanTxByPrev s m = Some l \<longrightarrow> getHash ` set l \<subseteq> insert ?h S"
    using inv unfolding store_inv_def by blast
  show ?thesis
    unfolding store_inv_def is_verifying_iff is_orphan_def
    using d v o dm l by simp
qed

lemma store_inv_invokeD:
  "invoke cb err tx s = (r, s') \<Longrightarrow> store_inv S s \<Longrightarrow> store_inv S s'"
  using store_inv_invoke [of S s cb err tx] by simp

lemma store_inv_add_catch: "store_inv S s \<Longrightarrow> store_inv S (snd (add_catch e cb s))"
  by (auto simp: add_catch_def split: prod.splits option.splits dest: store_inv_invokeD)

lemma store_inv_add:
  assumes inv: "store_inv S s"
  shows "store_inv (insert (getHash tx) S) (snd (add now tx cb s))"
proof -
  have up: "store_inv (insert (getHash tx) S) s"
    using inv by (rule store_inv_mono) auto
  show ?thesis
  proof (cases "txIndex s (getHash tx)")
    case None
    have "store_inv (insert (getHash tx) S)
            (s\<lparr>inFlight := inFlight s @ [tx\<lparr>first_seen := Some now\<rparr>],
               txIndex := (txIndex s)(getHash tx \<mapsto> Verifying [cb])\<rparr>)"
      using inv None by (rule store_inv_launch) simp
    with None up show ?thesis
      by (simp add: add_def Let_def store_inv_add_catch)
  next
    case (Some e)
    show ?thesis
    proof (cases e)
      case (Verifying q)
      with Some up show ?thesis by (simp add: add_def Let_def store_inv_queue)
    next
      case (Accepted known)
      with Some up show ?thesis
        by (auto simp: add_def Let_def split: prod.splits option.splits dest: store_inv_invokeD)
    qed
  qed
qed

lemma store_inv_forEach_add:
  "store_inv S s \<Longrightarrow> getHash ` set orphans \<subseteq> S \<Longrightarrow>
   store_inv S (snd (forEach_add now orphans s))"
proof (induction orphans arbitrary: s)
  case Nil
  then show ?case by simp
next
  case (Cons orphan orphans)
  have "insert (getHash orphan) S = S" using Cons.prems(2) by auto
  with store_inv_add [OF Cons.prems(1), of orphan now NotAFunction]
  have step: "store_inv S (snd (add now orphan NotAFunction s))" by simp
  show ?case
  proof (cases "add now orphan NotAFunction s")
    case (Pair r s')
    with step have inv': "store_inv S s'" by simp
    show ?thesis
    proof (cases r)
      case (Inl thrown)
      with Pair inv' show ?thesis by simp
    next
      case (Inr b)
      with Pair Cons.IH [OF inv'] Cons.prems(2) show ?thesis by simp
    qed
  qed
qed

lemma store_inv_drop_orphans:
  "store_inv S s \<Longrightarrow> store_inv S (s\<lparr>orphanTxByPrev := (orphanTxByPrev s)(h := None)\<rparr>)"
  unfolding store_inv_def is_verifying_iff is_orphan_def by auto

lemma add_orphanTxByPrev: "orphanTxByPrev (snd (add now tx cb s)) = orphanTxByPrev s"
proof (cases cb)
  case (Fn k)
  show ?thesis unfolding Fn
    by (simp add: add_def add_catch_def Let_def split: option.splits entry.splits)
next
  case (RemoveLater h)
  have "orphanTxByPrev (remove h s) = orphanTxByPrev s"
    by (simp add: remove_def emit_def Let_def fold_emit_fields split: option.splits entry.splits)
  then show ?thesis unfolding RemoveLater
    by (simp add: add_def add_catch_def Let_def split: option.splits entry.splits)
next
  case NotAFunction
  show ?thesis unfolding NotAFunction
    by (simp add: add_def add_catch_def Let_def split: option.splits entry.splits)
qed

lemma forEach_add_orphanTxByPrev:
  "orphanTxByPrev (snd (forEach_add now orphans s)) = orphanTxByPrev s"
proof (induction orphans arbitrary: s)
  case Nil
  show ?case by simp
next
  case (Cons orphan orphans)
  obtain r s' where eq: "add now orphan NotAFunction s = (r, s')"
    by (cases "add now orphan NotAFunction s")
  have one: "orphanTxByPrev s' = orphanTxByPrev s"
    using add_orphanTxByPrev [of now orphan NotAFunction s] eq by simp
  show ?case
  proof (cases r)
    case (Inl thrown)
    with eq one show ?thesis by simp
  next
    case (Inr b)
    with eq one Cons.IH [of s'] show ?thesis by simp
  qed
qed

lemma store_inv_processOrphans:
  assumes "store_inv S s"
  shows "store_inv S (snd (processOrphans now h s))"
proof (cases "orphanTxByPrev s h")
  case None
  with assms show ?thesis by (simp add: processOrphans_def)
next
  case (Some orphans)
  have sub: "getHash ` set orphans \<subseteq> S"
    using assms Some unfolding store_inv_def by blast
  obtain r s' where eq: "forEach_add now orphans s = (r, s')"
    by (cases "forEach_add now orphans s")
  have inv': "store_inv S s'"
    using store_inv_forEach_add [OF assms sub, of now] eq by simp
  show ?thesis
  proof (cases r)
    case None
    with Some eq store_inv_drop_orphans [OF inv', of h] show ?thesis
      by (simp add: processOrphans_def)
  next
    case (Some thrown)
    with \<open>orphanTxByPrev s h = Some orphans\<close> eq inv' show ?thesis
      by (simp add: processOrphans_def)
  qed
qed

lemma store_inv_indexAccount: "store_inv S s \<Longrightarrow> store_inv S (indexAccount tx i s)"
  by (erule store_inv_cong) (simp_all add: indexAccount_def emit_def)

lemma store_inv_notifyAccounts: "store_inv S s \<Longrightarrow> store_inv S (notifyAccounts tx s)"
proof -
  have "store_inv S s \<Longrightarrow> store_inv S (fold (indexAccount tx) accs s)" for accs
    by (induction accs arbitrary: s) (simp_all add: store_inv_indexAccount)
  then show "store_inv S s \<Longrightarrow> store_inv S (notifyAccounts tx s)"
    by (simp add: notifyAccounts_def)
qed

lemma store_inv_forEach_cbD:
  "forEach_cb cbs err tx s = (r, s') \<Longrightarrow> store_inv S s \<Longrightarrow> store_inv S s'"
  using store_inv_forEach_cb [of S s cbs err tx] by simp

lemma store_inv_processOrphansD:
  "processOrphans now h s = (r, s') \<Longrightarrow> store_inv S s \<Longrightarrow> store_inv S s'"
  using store_inv_processOrphans [of S s now h] by simp

text \<open>Moving a transaction that is being verified, and not in flight, to the orphans.\<close>

lemma store_inv_orphan:
  assumes inv: "store_inv S s" and v: "txIndex s (getHash tx) = Some (Verifying q)"
    and nf: "getHash tx \<notin> getHash ` set (inFlight s)"
  shows "store_inv S
           (s\<lparr>orphanTxIndex := (orphanTxIndex s)(getHash tx \<mapsto> tx),
              orphanTxByPrev := (orphanTxByPrev s)
                (m \<mapsto> (case orphanTxByPrev s m of None \<Rightarrow> [tx] | Some l \<Rightarrow> l @ [tx]))\<rparr>)"
proof -
  have inS: "getHash tx \<in> S"
    using inv v unfolding store_inv_def by auto
  have l: "\<forall>k l. ((orphanTxByPrev s)
                (m \<mapsto> (case orphanTxByPrev s m of None \<Rightarrow> [tx] | Some l \<Rightarrow> l @ [tx]))) k = Some l
             \<longrightarrow> getHash ` set l \<subseteq> S"
    using inv inS unfolding store_inv_def by (auto split: option.splits)
  show ?thesis
    using inv v nf l unfolding store_inv_def is_verifying_iff is_orphan_def by auto
qed

lemma store_inv_verifyCallback:
  assumes inv: "store_inv S s" and nf: "getHash tx \<notin> getHash ` set (inFlight s)"
    and no: "\<not> is_orphan s (getHash tx)"
  shows "store_inv S (snd (verifyCallback now tx err s))"
proof (cases "txIndex s (getHash tx)")
  case None
  with inv show ?thesis by (simp add: verifyCallback_def)
next
  case (Some ent)
  show ?thesis
  proof (cases ent)
    case (Accepted known)
    with Some inv show ?thesis by (simp add: verifyCallback_def)
  next
    case (Verifying q)
    have ti: "txIndex s (getHash tx) = Some (Verifying q)"
      using Some Verifying by simp
    have inS: "getHash tx \<in> S"
      using inv ti unfolding store_inv_def by auto
    have del: "store_inv S (s\<lparr>txIndex := (txIndex s)(getHash tx := None)\<rparr>)"
      using inv nf no inS by (rule store_inv_settle)
    show ?thesis
    proof (cases err)
      case None
      have acc: "store_inv S (s\<lparr>txIndex := (txIndex s)(getHash tx \<mapsto> Accepted tx)\<rparr>)"
        using inv nf no inS by (rule store_inv_settle)
      obtain r1 s1 where e1: "forEach_cb q None (Some tx)
          (s\<lparr>txIndex := (txIndex s)(getHash tx \<mapsto> Accepted tx)\<rparr>) = (r1, s1)"
        by (cases "forEach_cb q None (Some tx)
          (s\<lparr>txIndex := (txIndex s)(getHash tx \<mapsto> Accepted tx)\<rparr>)")
      have i1: "store_inv S s1" using e1 acc by (rule store_inv_forEach_cbD)
      obtain r2 s2 where e2: "processOrphans now (getHash tx) s1 = (r2, s2)"
        by (cases "processOrphans now (getHash tx) s1")
      have i2: "store_inv S s2" using e2 i1 by (rule store_inv_processOrphansD)
      have i3: "store_inv S (notifyAccounts tx (emit (TxNotify tx) s2))"
        using i2 by (intro store_inv_notifyAccounts store_inv_emit)
      show ?thesis
        using ti None e1 e2 i1 i2 i3
        by (simp add: verifyCallback_def split: option.splits)
    next
      case (Some er)
      show ?thesis
      proof (cases er)
        case (MissingSourceError m)
        have "store_inv S
           (s\<lparr>orphanTxIndex := (orphanTxIndex s)(getHash tx \<mapsto> tx),
              orphanTxByPrev := (orphanTxByPrev s)
                (m \<mapsto> (case orphanTxByPrev s m of None \<Rightarrow> [tx] | Some l \<Rightarrow> l @ [tx]))\<rparr>)"
          using inv ti nf by (rule store_inv_orphan)
        then show ?thesis
          using ti Some MissingSourceError
          by (simp add: verifyCallback_def store_inv_forEach_cb)
      next
        case TypeError
        with del ti Some show ?thesis
          by (simp add: verifyCallback_def store_inv_forEach_cb)
      next
        case (Thrown msg)
        with del ti Some show ?thesis
          by (simp add: verifyCallback_def store_inv_forEach_cb)
      next
        case (VerifyError msg)
        with del ti Some show ?thesis
          by (simp add: verifyCallback_def store_inv_forEach_cb)
      qed
    qed
  qed
qed

lemma remove1_key_fresh:
  "distinct (map f xs) \<Longrightarrow> x \<in> set xs \<Longrightarrow> f x \<notin> f ` set (remove1 x xs)"
proof (induction xs)
  case Nil
  then show ?case by simp
next
  case (Cons a xs)
  show ?case
  proof (cases "x = a")
    case True
    with Cons.prems show ?thesis by simp
  next
    case False
    with Cons.prems have mem: "x \<in> set xs" by simp
    have "f x \<notin> f ` set (remove1 x xs)"
      using Cons.IH Cons.prems mem by simp
    moreover have "f x \<noteq> f a"
    proof
      assume "f x = f a"
      then have "f a \<in> f ` set xs" using mem by (metis imageI)
      with Cons.prems(1) show False by simp
    qed
    ultimately show ?thesis using False by simp
  qed
qed

lemma distinct_map_remove1: "distinct (map f xs) \<Longrightarrow> distinct (map f (remove1 x xs))"
proof (induction xs)
  case Nil
  then show ?case by simp
next
  case (Cons a xs)
  have "f a \<notin> f ` set (remove1 x xs)"
    using Cons.prems set_remove1_subset [of x xs] by auto
  with Cons show ?case by simp
qed

lemma store_inv_landed:
  assumes inv: "store_inv S s"
  shows "store_inv S (s\<lparr>inFlight := remove1 tx (inFlight s)\<rparr>)"
proof -
  have sub: "set (remove1 tx (inFlight s)) \<subseteq> set (inFlight s)"
    by (rule set_remove1_subset)
  have d: "distinct (map getHash (remove1 tx (inFlight s)))"
    using inv unfolding store_inv_def by (simp add: distinct_map_remove1)
  show ?thesis
    using inv sub d unfolding store_inv_def is_verifying_iff is_orphan_def
    by (auto simp: subset_iff image_iff)
qed

lemma store_inv_verifyDone:
  assumes inv: "store_inv S s" and fl: "tx \<in> set (inFlight s)"
  shows "store_inv S (snd (verifyDone now tx err s))"
proof -
  let ?s0 = "s\<lparr>inFlight := remove1 tx (inFlight s)\<rparr>"
  have d: "distinct (map getHash (inFlight s))"
    using inv unfolding store_inv_def by simp
  have nf: "getHash tx \<notin> getHash ` set (inFlight ?s0)"
    using remove1_key_fresh [OF d fl] by simp
  have "\<not> is_orphan s (getHash tx)"
    using inv fl unfolding store_inv_def by blast
  then have no: "\<not> is_orphan ?s0 (getHash tx)"
    by (simp add: is_orphan_def)
  have "store_inv S ?s0" using inv by (rule store_inv_landed)
  from store_inv_verifyCallback [OF this nf no] show ?thesis
    by (simp add: verifyDone_def)
qed

lemma store_inv_get: "store_inv S s \<Longrightarrow> store_inv S (snd (get h cb s))"
  by (auto simp: get_def Let_def store_inv_queue
      split: option.splits entry.splits prod.splits dest: store_inv_invokeD)

lemma fold_skip: "fold (\<lambda>i s'. s') xs s = s"
  by (induction xs) simp_all

lemma store_inv_handleTxAdd: "store_inv S s \<Longrightarrow> store_inv S (handleTxAdd etx s)"
  by (simp add: handleTxAdd_def Let_def fold_skip store_inv_remove)

lemma reach_store_inv: "reach S s \<Longrightarrow> store_inv S s"
proof (induction rule: reach.induct)
  case (reach_new la)
  show ?case by (rule store_inv_new)
next
  case (reach_add S s tx now cb)
  then show ?case by (simp add: store_inv_add)
next
  case (reach_get S s h cb)
  then show ?case by (simp add: store_inv_get)
next
  case (reach_remove S s h)
  then show ?case by (simp add: store_inv_remove)
next
  case (reach_handleTxAdd S s etx)
  then show ?case by (simp add: store_inv_handleTxAdd)
next
  case (reach_verifyDone S s tx now err)
  then show ?case by (simp add: store_inv_verifyDone)
qed

text \<open>
  C6. In every state the store can reach, \<open>isKnown(h)\<close> is true when the entry at
  \<open>h\<close> is being verified, is accepted or is an orphan (an orphan keeps its waiter queue
  in \<open>txIndex\<close>), and is false when \<open>h\<close> was never given to \<open>add\<close>.
\<close>

theorem isKnown_states:
  assumes "reach S s"
  shows "((is_verifying s h \<or> is_accepted s h \<or> is_orphan s h) \<longrightarrow> isKnown h s) \<and>
         (h \<notin> S \<longrightarrow> \<not> isKnown h s)"
proof -
  have inv: "store_inv S s" using assms by (rule reach_store_inv)
  have o: "is_orphan s h \<longrightarrow> is_verifying s h"
    using inv unfolding store_inv_def by blast
  have d: "dom (txIndex s) \<subseteq> S"
    using inv unfolding store_inv_def by blast
  show ?thesis
    using o d by (auto simp: isKnown_def is_verifying_iff is_accepted_iff)
qed

lemma reach_orphan_store: "reach {[2]} orphan_store"
proof -
  have r0: "reach {} (newStore False)" by (rule reach_new)
  have r1: "reach (insert (getHash tx_C) {}) (snd (add 10 tx_C (Fn 1) (newStore False)))"
    using r0 by (rule reach_add)
  have fl: "seen 10 tx_C \<in> set (inFlight (snd (add 10 tx_C (Fn 1) (newStore False))))"
    by (simp add: add_def newStore_def tx_C_def seen_def Let_def)
  have "reach (insert (getHash tx_C) {})
          (snd (verifyDone 11 (seen 10 tx_C) (Some (MissingSourceError [1]))
             (snd (add 10 tx_C (Fn 1) (newStore False)))))"
    using r1 fl by (rule reach_verifyDone)
  then show ?thesis by (simp add: orphan_store_def tx_C_def)
qed

theorem isKnown_states_witness:
  "reach {[2]} orphan_store \<and> is_orphan orphan_store [2] \<and> isKnown [2] orphan_store \<and>
   [1] \<notin> {[2 :: byte]} \<and> \<not> isKnown [1] orphan_store"
proof -
  have o: "is_orphan orphan_store [2]"
    by (simp add: orphan_store_def verifyDone_def verifyCallback_def add_def newStore_def
        is_orphan_def tx_C_def seen_def Let_def)
  have n: "[1] \<notin> {[2 :: byte]}" by simp
  from isKnown_states [OF reach_orphan_store, of "[2]"] isKnown_states [OF reach_orphan_store, of "[1]"]
    reach_orphan_store o n
  show ?thesis by simp
qed

section \<open>Deduplication in \<open>add\<close>\<close>

text \<open>
  In every state the store can reach, a verified entry is stored under the hash of its
  transaction.
\<close>

lemma accepted_keyed_cong:
  "accepted_keyed s \<Longrightarrow> txIndex s' = txIndex s \<Longrightarrow> accepted_keyed s'"
  by (simp add: accepted_keyed_def)

lemma accepted_keyed_upd:
  assumes "accepted_keyed s" and "\<forall>tx. v = Some (Accepted tx) \<longrightarrow> getHash tx = h"
  shows "accepted_keyed (s\<lparr>txIndex := (txIndex s)(h := v)\<rparr>)"
  using assms by (simp add: accepted_keyed_def)

lemma accepted_keyed_new: "accepted_keyed (newStore la)"
  by (simp add: accepted_keyed_def newStore_def)

lemma txIndex_remove:
  "txIndex (remove h s) =
     (case txIndex s h of
        Some (Verifying q) \<Rightarrow> (txIndex s)(h \<mapsto> Verifying (q @ [RemoveLater h]))
      | Some (Accepted tx) \<Rightarrow> (txIndex s)(h := None)
      | None \<Rightarrow> txIndex s)"
  by (simp add: remove_def Let_def fold_emit_fields emit_def split: option.splits entry.splits)

lemma accepted_keyed_remove: "accepted_keyed s \<Longrightarrow> accepted_keyed (remove h s)"
  unfolding accepted_keyed_def txIndex_remove
  by (auto split: option.splits entry.splits)

lemma accepted_keyed_invoke:
  "accepted_keyed s \<Longrightarrow> accepted_keyed (snd (invoke cb err tx s))"
proof (cases cb)
  case (Fn k)
  assume "accepted_keyed s"
  then show ?thesis unfolding Fn by (simp, elim accepted_keyed_cong) simp
next
  case (RemoveLater h)
  assume "accepted_keyed s"
  then show ?thesis unfolding RemoveLater by (simp add: accepted_keyed_remove)
next
  case NotAFunction
  assume "accepted_keyed s"
  then show ?thesis unfolding NotAFunction by simp
qed

lemma accepted_keyed_invokeD:
  "invoke cb err tx s = (r, s') \<Longrightarrow> accepted_keyed s \<Longrightarrow> accepted_keyed s'"
  using accepted_keyed_invoke [of s cb err tx] by simp

lemma accepted_keyed_forEach_cb:
  "accepted_keyed s \<Longrightarrow> accepted_keyed (snd (forEach_cb cbs err tx s))"
proof (induction cbs arbitrary: s)
  case Nil
  then show ?case by simp
next
  case (Cons cb cbs)
  obtain r s' where eq: "invoke cb err tx s = (r, s')"
    by (cases "invoke cb err tx s")
  have k': "accepted_keyed s'" using eq Cons.prems by (rule accepted_keyed_invokeD)
  show ?case
  proof (cases r)
    case None
    with eq Cons.IH [OF k'] show ?thesis by simp
  next
    case (Some e)
    with eq k' show ?thesis by simp
  qed
qed

lemma accepted_keyed_forEach_cbD:
  "forEach_cb cbs err tx s = (r, s') \<Longrightarrow> accepted_keyed s \<Longrightarrow> accepted_keyed s'"
  using accepted_keyed_forEach_cb [of s cbs err tx] by simp

lemma accepted_keyed_add: "accepted_keyed s \<Longrightarrow> accepted_keyed (snd (add now tx cb s))"
proof -
  assume k: "accepted_keyed s"
  have push: "accepted_keyed (s\<lparr>txIndex := (txIndex s)(getHash tx \<mapsto> Verifying q)\<rparr>)" for q
    using k by (rule accepted_keyed_upd) simp
  have launch: "accepted_keyed (s\<lparr>inFlight := fl,
                   txIndex := (txIndex s)(getHash tx \<mapsto> Verifying q)\<rparr>)" for q fl
    using push [of q] by (rule accepted_keyed_cong) simp
  show ?thesis
    using k push launch
    by (auto simp: add_def add_catch_def Let_def
        split: option.splits entry.splits prod.splits dest: accepted_keyed_invokeD)
qed

lemma accepted_keyed_forEach_add:
  "accepted_keyed s \<Longrightarrow> accepted_keyed (snd (forEach_add now orphans s))"
proof (induction orphans arbitrary: s)
  case Nil
  then show ?case by simp
next
  case (Cons orphan orphans)
  obtain r s' where eq: "add now orphan NotAFunction s = (r, s')"
    by (cases "add now orphan NotAFunction s")
  have k': "accepted_keyed s'"
    using accepted_keyed_add [OF Cons.prems, of now orphan NotAFunction] eq by simp
  show ?case
  proof (cases r)
    case (Inl thrown)
    with eq k' show ?thesis by simp
  next
    case (Inr b)
    with eq Cons.IH [OF k'] show ?thesis by simp
  qed
qed

lemma accepted_keyed_processOrphans:
  assumes "accepted_keyed s"
  shows "accepted_keyed (snd (processOrphans now h s))"
proof (cases "orphanTxByPrev s h")
  case None
  with assms show ?thesis by (simp add: processOrphans_def)
next
  case (Some orphans)
  obtain r s' where eq: "forEach_add now orphans s = (r, s')"
    by (cases "forEach_add now orphans s")
  have k': "accepted_keyed s'"
    using accepted_keyed_forEach_add [OF assms, of now orphans] eq by simp
  have drop: "accepted_keyed (s'\<lparr>orphanTxByPrev := (orphanTxByPrev s')(h := None)\<rparr>)"
    using k' by (rule accepted_keyed_cong) simp
  show ?thesis
    using Some eq k' drop by (cases r) (simp_all add: processOrphans_def)
qed

lemma accepted_keyed_notifyAccounts:
  "accepted_keyed s \<Longrightarrow> accepted_keyed (notifyAccounts tx s)"
proof -
  have one: "accepted_keyed s \<Longrightarrow> accepted_keyed (indexAccount tx i s)" for i s
    by (erule accepted_keyed_cong) (simp add: indexAccount_def emit_def)
  have "accepted_keyed s \<Longrightarrow> accepted_keyed (fold (indexAccount tx) accs s)" for accs
    by (induction accs arbitrary: s) (simp_all add: one)
  then show "accepted_keyed s \<Longrightarrow> accepted_keyed (notifyAccounts tx s)"
    by (simp add: notifyAccounts_def)
qed

lemma accepted_keyed_verifyCallback:
  assumes k: "accepted_keyed s"
  shows "accepted_keyed (snd (verifyCallback now tx err s))"
proof (cases "txIndex s (getHash tx)")
  case None
  with k show ?thesis by (simp add: verifyCallback_def)
next
  case (Some ent)
  show ?thesis
  proof (cases ent)
    case (Accepted known)
    with Some k show ?thesis by (simp add: verifyCallback_def)
  next
    case (Verifying q)
    have ti: "txIndex s (getHash tx) = Some (Verifying q)"
      using Some Verifying by simp
    show ?thesis
    proof (cases err)
      case None
      have acc: "accepted_keyed (s\<lparr>txIndex := (txIndex s)(getHash tx \<mapsto> Accepted tx)\<rparr>)"
        using k by (rule accepted_keyed_upd) simp
      obtain r1 s1 where e1: "forEach_cb q None (Some tx)
          (s\<lparr>txIndex := (txIndex s)(getHash tx \<mapsto> Accepted tx)\<rparr>) = (r1, s1)"
        by (cases "forEach_cb q None (Some tx)
          (s\<lparr>txIndex := (txIndex s)(getHash tx \<mapsto> Accepted tx)\<rparr>)")
      have k1: "accepted_keyed s1" using e1 acc by (rule accepted_keyed_forEach_cbD)
      obtain r2 s2 where e2: "processOrphans now (getHash tx) s1 = (r2, s2)"
        by (cases "processOrphans now (getHash tx) s1")
      have k2: "accepted_keyed s2"
        using accepted_keyed_processOrphans [OF k1, of now "getHash tx"] e2 by simp
      have "accepted_keyed (emit (TxNotify tx) s2)"
        using k2 by (rule accepted_keyed_cong) (simp add: emit_def)
      then have k3: "accepted_keyed (notifyAccounts tx (emit (TxNotify tx) s2))"
        by (rule accepted_keyed_notifyAccounts)
      show ?thesis
        using ti None e1 e2 k1 k2 k3
        by (simp add: verifyCallback_def split: option.splits)
    next
      case (Some er)
      have del: "accepted_keyed (s\<lparr>txIndex := (txIndex s)(getHash tx := None)\<rparr>)"
        using k by (rule accepted_keyed_upd) simp
      have orph: "accepted_keyed (s\<lparr>orphanTxIndex := oi, orphanTxByPrev := ob\<rparr>)" for oi ob
        using k by (rule accepted_keyed_cong) simp
      show ?thesis
        using ti Some del orph
        by (cases er) (simp_all add: verifyCallback_def accepted_keyed_forEach_cb)
    qed
  qed
qed

lemma accepted_keyed_verifyDone:
  assumes "accepted_keyed s"
  shows "accepted_keyed (snd (verifyDone now tx err s))"
proof -
  have "accepted_keyed (s\<lparr>inFlight := remove1 tx (inFlight s)\<rparr>)"
    using assms by (rule accepted_keyed_cong) simp
  then show ?thesis
    unfolding verifyDone_def by (rule accepted_keyed_verifyCallback)
qed

lemma accepted_keyed_get: "accepted_keyed s \<Longrightarrow> accepted_keyed (snd (get h cb s))"
proof -
  assume k: "accepted_keyed s"
  have push: "accepted_keyed (s\<lparr>txIndex := (txIndex s)(h \<mapsto> Verifying q)\<rparr>)" for q
    using k by (rule accepted_keyed_upd) simp
  show ?thesis
    using k push
    by (auto simp: get_def Let_def
        split: option.splits entry.splits prod.splits dest: accepted_keyed_invokeD)
qed

lemma accepted_keyed_handleTxAdd:
  "accepted_keyed s \<Longrightarrow> accepted_keyed (handleTxAdd etx s)"
  by (simp add: handleTxAdd_def Let_def fold_skip accepted_keyed_remove)

lemma reach_accepted_keyed: "reach S s \<Longrightarrow> accepted_keyed s"
proof (induction rule: reach.induct)
  case (reach_new la)
  show ?case by (rule accepted_keyed_new)
next
  case (reach_add S s tx now cb)
  then show ?case by (simp add: accepted_keyed_add)
next
  case (reach_get S s h cb)
  then show ?case by (simp add: accepted_keyed_get)
next
  case (reach_remove S s h)
  then show ?case by (simp add: accepted_keyed_remove)
next
  case (reach_handleTxAdd S s etx)
  then show ?case by (simp add: accepted_keyed_handleTxAdd)
next
  case (reach_verifyDone S s tx now err)
  then show ?case by (simp add: accepted_keyed_verifyDone)
qed

lemma one_per_key:
  "distinct (map f xs) \<Longrightarrow> x \<in> set xs \<Longrightarrow> length (filter (\<lambda>u. f u = f x) xs) = 1"
proof (induction xs)
  case Nil
  then show ?case by simp
next
  case (Cons a xs)
  show ?case
  proof (cases "f a = f x")
    case True
    have "f x \<notin> f ` set xs" using Cons.prems(1) True by simp
    then have "\<forall>u \<in> set xs. f u \<noteq> f x"
      by (metis imageI)
    then have "filter (\<lambda>u. f u = f x) xs = []"
      by (simp add: filter_empty_conv)
    with True show ?thesis by simp
  next
    case False
    with Cons.prems have "x \<in> set xs" by auto
    with Cons.IH Cons.prems(1) False show ?thesis by simp
  qed
qed

lemma reach_verifying_store: "reach {[2]} verifying_store"
proof -
  have "reach (insert (getHash tx_C) {}) (snd (add 10 tx_C (Fn 1) (newStore False)))"
    using reach_new by (rule reach_add)
  then show ?thesis by (simp add: verifying_store_def tx_C_def)
qed

lemma reach_pool_store: "reach {[1]} pool_store"
proof -
  have r1: "reach (insert (getHash tx_P) {}) (snd (add 12 tx_P (Fn 2) (newStore False)))"
    using reach_new by (rule reach_add)
  have fl: "seen 12 tx_P \<in> set (inFlight (snd (add 12 tx_P (Fn 2) (newStore False))))"
    by (simp add: add_def newStore_def tx_P_def seen_def Let_def)
  have "reach (insert (getHash tx_P) {})
          (snd (verifyDone 13 (seen 12 tx_P) None (snd (add 12 tx_P (Fn 2) (newStore False)))))"
    using r1 fl by (rule reach_verifyDone)
  then show ?thesis by (simp add: pool_store_def tx_P_def)
qed

lemma reach_busy_store: "reach {[2], [1]} busy_store"
proof -
  have r1: "reach (insert (getHash tx_P) {}) (snd (add 12 tx_P (Fn 2) (newStore False)))"
    using reach_new by (rule reach_add)
  have r2: "reach (insert (getHash tx_C) (insert (getHash tx_P) {}))
              (snd (add 14 tx_C (Fn 8) (snd (add 12 tx_P (Fn 2) (newStore False)))))"
    using r1 by (rule reach_add)
  have r3: "reach (insert (getHash tx_C) (insert (getHash tx_P) {}))
              (snd (get [2] (Fn 9)
                 (snd (add 14 tx_C (Fn 8) (snd (add 12 tx_P (Fn 2) (newStore False)))))))"
    using r2 by (rule reach_get)
  have "reach (insert (getHash tx_C) (insert (getHash tx_P) {}))
              (remove [1] (snd (get [2] (Fn 9)
                 (snd (add 14 tx_C (Fn 8) (snd (add 12 tx_P (Fn 2) (newStore False))))))))"
    using r3 by (rule reach_remove)
  then show ?thesis by (simp add: busy_store_def tx_C_def tx_P_def)
qed

lemma busy_store_inFlight: "inFlight busy_store = [seen 12 tx_P, seen 14 tx_C]"
  by (simp add: busy_store_def remove_def get_def add_def newStore_def tx_P_def tx_C_def
      seen_def Let_def)

lemma verifying_store_entry:
  "txIndex verifying_store (getHash tx_C) = Some (Verifying [Fn 1])"
  by (simp add: verifying_store_def add_def newStore_def tx_C_def Let_def)

text \<open>
  C4. In every state the store can reach, for every call \<open>add(tx, cb)\<close> with a
  function \<open>cb\<close>: when the entry at the hash of \<open>tx\<close> is a waiter queue, \<open>cb\<close> is
  appended to it, no verification is started and \<open>add\<close> returns false; when the entry
  is accepted, \<open>cb\<close> is called at once with no error and the transaction, which is the
  stored one (the entry is keyed by the hash of the transaction it holds, so the
  transaction given to \<open>add\<close> has the hash of the stored one), no verification is
  started and \<open>add\<close> returns false. Hence calls of \<open>add\<close> with the same hash share
  one verification: the call that finds no entry and passes the coinbase and standardness
  checks puts the transaction in flight, and in every reachable state where a
  transaction of that hash is in flight, whatever was called in between, \<open>add\<close> returns
  false, its callback joins the waiter queue, nothing is added to the flight list, and
  exactly one verification of that hash is in flight.
\<close>

theorem add_known_entry:
  assumes "reach S s"
  shows
    "(txIndex s (getHash tx) = Some (Verifying q) \<longrightarrow>
        add now tx (Fn k) s =
          (Inr False, s\<lparr>txIndex := (txIndex s)(getHash tx \<mapsto> Verifying (q @ [Fn k]))\<rparr>) \<and>
        inFlight (snd (add now tx (Fn k) s)) = inFlight s) \<and>
     (txIndex s (getHash tx) = Some (Accepted stored) \<longrightarrow>
        getHash stored = getHash tx \<and>
        add now tx (Fn k) s = (Inr False, s\<lparr>called := called s @ [Called k None (Some tx)]\<rparr>) \<and>
        inFlight (snd (add now tx (Fn k) s)) = inFlight s) \<and>
     (txIndex s (getHash tx) = None \<and> \<not> isCoinBase tx \<and> isStandard tx \<longrightarrow>
        fst (add now tx (Fn k) s) = Inr True \<and>
        inFlight (snd (add now tx (Fn k) s)) = inFlight s @ [tx\<lparr>first_seen := Some now\<rparr>]) \<and>
     (t \<in> set (inFlight s) \<and> getHash t = getHash tx \<longrightarrow>
        fst (add now tx (Fn k) s) = Inr False \<and>
        (\<exists>q'. txIndex s (getHash tx) = Some (Verifying q') \<and>
              txIndex (snd (add now tx (Fn k) s)) (getHash tx) = Some (Verifying (q' @ [Fn k]))) \<and>
        inFlight (snd (add now tx (Fn k) s)) = inFlight s \<and>
        length (filter (\<lambda>u. getHash u = getHash tx) (inFlight (snd (add now tx (Fn k) s)))) = 1)"
proof -
  have inv: "store_inv S s" using assms by (rule reach_store_inv)
  have keyed: "accepted_keyed s" using assms by (rule reach_accepted_keyed)
  have c1: "txIndex s (getHash tx) = Some (Verifying q) \<longrightarrow>
        add now tx (Fn k) s =
          (Inr False, s\<lparr>txIndex := (txIndex s)(getHash tx \<mapsto> Verifying (q @ [Fn k]))\<rparr>) \<and>
        inFlight (snd (add now tx (Fn k) s)) = inFlight s"
    by (simp add: add_def Let_def)
  have c2: "txIndex s (getHash tx) = Some (Accepted stored) \<longrightarrow>
        getHash stored = getHash tx \<and>
        add now tx (Fn k) s = (Inr False, s\<lparr>called := called s @ [Called k None (Some tx)]\<rparr>) \<and>
        inFlight (snd (add now tx (Fn k) s)) = inFlight s"
    using keyed by (simp add: add_def Let_def accepted_keyed_def)
  have c3: "txIndex s (getHash tx) = None \<and> \<not> isCoinBase tx \<and> isStandard tx \<longrightarrow>
        fst (add now tx (Fn k) s) = Inr True \<and>
        inFlight (snd (add now tx (Fn k) s)) = inFlight s @ [tx\<lparr>first_seen := Some now\<rparr>]"
    by (simp add: add_def Let_def)
  have c4: "t \<in> set (inFlight s) \<and> getHash t = getHash tx \<longrightarrow>
        fst (add now tx (Fn k) s) = Inr False \<and>
        (\<exists>q'. txIndex s (getHash tx) = Some (Verifying q') \<and>
              txIndex (snd (add now tx (Fn k) s)) (getHash tx) = Some (Verifying (q' @ [Fn k]))) \<and>
        inFlight (snd (add now tx (Fn k) s)) = inFlight s \<and>
        length (filter (\<lambda>u. getHash u = getHash tx) (inFlight (snd (add now tx (Fn k) s)))) = 1"
  proof
    assume h: "t \<in> set (inFlight s) \<and> getHash t = getHash tx"
    have d: "distinct (map getHash (inFlight s))"
      using inv unfolding store_inv_def by simp
    have "is_verifying s (getHash t)"
      using inv h unfolding store_inv_def by blast
    then obtain q' where v: "txIndex s (getHash tx) = Some (Verifying q')"
      using h by (auto simp: is_verifying_iff)
    have one: "length (filter (\<lambda>u. getHash u = getHash tx) (inFlight s)) = 1"
      using one_per_key [OF d, of t] h by simp
    show "fst (add now tx (Fn k) s) = Inr False \<and>
        (\<exists>q'. txIndex s (getHash tx) = Some (Verifying q') \<and>
              txIndex (snd (add now tx (Fn k) s)) (getHash tx) = Some (Verifying (q' @ [Fn k]))) \<and>
        inFlight (snd (add now tx (Fn k) s)) = inFlight s \<and>
        length (filter (\<lambda>u. getHash u = getHash tx) (inFlight (snd (add now tx (Fn k) s)))) = 1"
      using v one by (simp add: add_def Let_def)
  qed
  from c1 c2 c3 c4 show ?thesis by blast
qed

theorem add_known_entry_witness:
  "reach {[2]} verifying_store \<and>
   txIndex verifying_store (getHash tx_C) = Some (Verifying [Fn 1]) \<and>
   add 20 tx_C (Fn 4) verifying_store =
     (Inr False,
      verifying_store\<lparr>txIndex := (txIndex verifying_store)(getHash tx_C \<mapsto> Verifying [Fn 1, Fn 4])\<rparr>) \<and>
   inFlight (snd (add 20 tx_C (Fn 4) verifying_store)) = inFlight verifying_store \<and>
   reach {[1]} pool_store \<and>
   txIndex pool_store (getHash tx_P) = Some (Accepted (seen 12 tx_P)) \<and>
   getHash (seen 12 tx_P) = getHash tx_P \<and>
   add 20 tx_P (Fn 5) pool_store =
     (Inr False, pool_store\<lparr>called := called pool_store @ [Called 5 None (Some tx_P)]\<rparr>) \<and>
   inFlight (snd (add 20 tx_P (Fn 5) pool_store)) = inFlight pool_store \<and>
   reach {} (newStore False) \<and>
   txIndex (newStore False) (getHash tx_P) = None \<and> \<not> isCoinBase tx_P \<and> isStandard tx_P \<and>
   fst (add 30 tx_P (Fn 6) (newStore False)) = Inr True \<and>
   inFlight (snd (add 30 tx_P (Fn 6) (newStore False))) = [seen 30 tx_P] \<and>
   reach {[2], [1]} busy_store \<and>
   seen 12 tx_P \<in> set (inFlight busy_store) \<and> getHash (seen 12 tx_P) = getHash tx_P \<and>
   fst (add 15 tx_P (Fn 5) busy_store) = Inr False \<and>
   inFlight (snd (add 15 tx_P (Fn 5) busy_store)) = inFlight busy_store \<and>
   length (filter (\<lambda>u. getHash u = getHash tx_P) (inFlight (snd (add 15 tx_P (Fn 5) busy_store)))) = 1"
proof -
  have n: "txIndex (newStore False) (getHash tx_P) = None \<and> \<not> isCoinBase tx_P \<and>
           isStandard tx_P"
    by (simp add: newStore_def tx_P_def)
  have e: "inFlight (newStore False) = []" by (simp add: newStore_def)
  have f: "seen 12 tx_P \<in> set (inFlight busy_store) \<and> getHash (seen 12 tx_P) = getHash tx_P"
    by (simp add: busy_store_inFlight seen_def)
  from add_known_entry [OF reach_verifying_store, of tx_C "[Fn 1]" 20 4] verifying_store_entry
  have c1: "add 20 tx_C (Fn 4) verifying_store =
     (Inr False,
      verifying_store\<lparr>txIndex := (txIndex verifying_store)(getHash tx_C \<mapsto> Verifying [Fn 1, Fn 4])\<rparr>) \<and>
     inFlight (snd (add 20 tx_C (Fn 4) verifying_store)) = inFlight verifying_store"
    by simp
  from add_known_entry [OF reach_pool_store, of tx_P _ 20 5 "seen 12 tx_P"] pool_store_entry
  have c2: "getHash (seen 12 tx_P) = getHash tx_P \<and>
    add 20 tx_P (Fn 5) pool_store =
     (Inr False, pool_store\<lparr>called := called pool_store @ [Called 5 None (Some tx_P)]\<rparr>) \<and>
    inFlight (snd (add 20 tx_P (Fn 5) pool_store)) = inFlight pool_store"
    by simp
  from add_known_entry [OF reach_new [of False], of tx_P _ 30 6] n e
  have c3: "fst (add 30 tx_P (Fn 6) (newStore False)) = Inr True \<and>
   inFlight (snd (add 30 tx_P (Fn 6) (newStore False))) = [seen 30 tx_P]"
    by (simp add: seen_def)
  from add_known_entry [OF reach_busy_store, of tx_P "[]" 15 5 tx_P "seen 12 tx_P"] f
  have c4: "fst (add 15 tx_P (Fn 5) busy_store) = Inr False \<and>
   inFlight (snd (add 15 tx_P (Fn 5) busy_store)) = inFlight busy_store \<and>
   length (filter (\<lambda>u. getHash u = getHash tx_P) (inFlight (snd (add 15 tx_P (Fn 5) busy_store)))) = 1"
    by blast
  from reach_verifying_store verifying_store_entry c1 reach_pool_store pool_store_entry c2
    reach_new [of False] n c3 reach_busy_store f c4
  show ?thesis by blast
qed

end
